theory Spec2Isabelle
  imports Main "HOL-Library.Word"
begin

section \<open>JavaScript primitives used by the transport layer\<close>

text \<open>
  Strings are modelled as \<open>string\<close> (lists of 8-bit characters). The payloads that the
  transport layer cuts are base64 text and JSON of base64 text, so one list element stands
  for one UTF-16 code unit of the JavaScript string, and \<open>length\<close> is \<open>.length\<close>.
  Binary strings have code units below 256 by construction; the names of archive entries
  and the media types are taken to have them below 256 as well.
\<close>

text \<open>
  \<open>String.prototype.substring(start, end)\<close>: both arguments are clamped to
  \<open>[0, length]\<close> and swapped when \<open>start > end\<close>.
\<close>

definition substring :: "string \<Rightarrow> int \<Rightarrow> int \<Rightarrow> string" where
  "substring s start endIdx =
     (let len = int (length s);
          finalStart = min (max start 0) len;
          finalEnd = min (max endIdx 0) len;
          lo = min finalStart finalEnd;
          hi = max finalStart finalEnd
      in take (nat (hi - lo)) (drop (nat lo) s))"

text \<open>
  \<open>Math.ceil(a / b)\<close> for non-negative integers \<open>a\<close> and a positive integer \<open>b\<close>
  (all lengths here are far below \<open>2^53\<close>, where the floating-point quotient is exact
  enough for \<open>Math.ceil\<close> to give the integer ceiling).
\<close>

definition ceil_div :: "nat \<Rightarrow> nat \<Rightarrow> nat" where
  "ceil_div a b = (a + b - 1) div b"

section \<open>Dispatcher: stored results and the pull handler\<close>

text \<open>
  The 32 MiB ceilings of the background script, \<open>32 * 1024 * 1024\<close> each:
  \<open>MAX_CHUNK_SIZE\<close> (the client's upload uses a constant of the same name and value) and
  \<open>MAX_RESPONSE_SIZE\<close>. The worker's \<open>MAX_MESSAGE_SIZE\<close> comes with \<open>sendResult\<close>.
\<close>

definition MAX_CHUNK_SIZE :: nat where
  "MAX_CHUNK_SIZE = 32 * 1024 * 1024"

definition MAX_RESPONSE_SIZE :: nat where
  "MAX_RESPONSE_SIZE = 32 * 1024 * 1024"

text \<open>
  The errors thrown or passed to \<open>reject\<close>: \<open>'Transfer not found: ' + transferId\<close>,
  \<open>`Incomplete transfer: received ${received}/${totalChunks} chunks`\<close>,
  \<open>'Result not found: ' + resultId\<close>, the two timeout errors (with their message),
  \<open>new Error(message.error)\<close> for an error reported by the worker, the \<open>SyntaxError\<close> of
  \<open>JSON.parse\<close>, the \<open>InvalidCharacterError\<close> of \<open>atob\<close> and \<open>btoa\<close>,
  \<open>'No video file found in ZIP'\<close>, and whatever the archive reader or the conversion
  engine throws.
\<close>

datatype error =
    TransferNotFound string
  | IncompleteTransfer nat nat
  | ResultNotFound string
  | TimedOut string
  | WorkerError string
  | JsonSyntaxError
  | InvalidCharacterError
  | NoVideoFound
  | EngineFailure string

text \<open>
  An entry of \<open>resultStorage\<close>: either a single-video result object (its \<open>base64\<close> and
  \<open>mimeType\<close>), or \<open>{ json, isMultipleVideos: true }\<close>.
\<close>

datatype stored =
    StoredSingle string string
  | StoredJson string

text \<open>\<open>stored.isMultipleVideos ? stored.json : stored.base64\<close>\<close>

fun stored_data :: "stored \<Rightarrow> string" where
  "stored_data (StoredJson js) = js"
| "stored_data (StoredSingle b64 mime) = b64"

record chunk_response =
  chunk :: string
  isLast :: bool

type_synonym result_storage = "string \<rightharpoonup> stored"

text \<open>
  \<open>handleGetResultChunk(resultId, chunkIndex)\<close>. The index comes out of a message, so
  it is an arbitrary integer. The function returns the response and the updated
  \<open>resultStorage\<close>; the thrown \<open>Error('Result not found: ' + resultId)\<close> is \<open>Inl\<close>.
\<close>

definition handleGetResultChunk ::
  "string \<Rightarrow> int \<Rightarrow> result_storage \<Rightarrow> error + (chunk_response \<times> result_storage)" where
  "handleGetResultChunk resultId chunkIndex resultStorage =
     (case resultStorage resultId of
        None \<Rightarrow> Inl (ResultNotFound resultId)
      | Some st \<Rightarrow>
          (let data = stored_data st;
               start = chunkIndex * int MAX_CHUNK_SIZE;
               endIdx = min (start + int MAX_CHUNK_SIZE) (int (length data));
               ch = substring data start endIdx;
               lst = (endIdx \<ge> int (length data))
           in Inr (\<lparr>chunk = ch, isLast = lst\<rparr>,
                   if lst then resultStorage(resultId := None) else resultStorage)))"

section \<open>Chunking and reassembly\<close>

text \<open>
  A JavaScript array of strings with holes: \<open>None\<close> is a hole (or \<open>undefined\<close>).
  \<open>chunks[i] = v\<close> writes slot \<open>i\<close> and extends the array with holes when \<open>i\<close>
  is at or past its length; \<open>chunks.join('')\<close> reads a hole as the empty string.
\<close>

type_synonym js_array = "string option list"

definition array_set :: "js_array \<Rightarrow> nat \<Rightarrow> string \<Rightarrow> js_array" where
  "array_set xs i v =
     (if i < length xs then xs[i := Some v]
      else xs @ replicate (i - length xs) None @ [Some v])"

definition join_empty :: "js_array \<Rightarrow> string" where
  "join_empty xs = concat (map (\<lambda>x. case x of None \<Rightarrow> [] | Some v \<Rightarrow> v) xs)"

text \<open>
  The chunking loop, which the sources repeat with their own 32 MiB constant
  (\<open>handleExtractZipProcess\<close>, \<open>sendResult\<close> twice, and the client's upload):
  \<^verbatim>\<open>
  for (let i = 0; i < totalChunks; i++) {
    const start = i * MAX;
    const end = Math.min(start + MAX, data.length);
    const chunk = data.substring(start, end);
    post({ chunkIndex: i, chunk: chunk });
  }
  \<close>
  The ceiling is a parameter here; the loop yields the posted (index, chunk) pairs.
\<close>

definition chunk_at :: "nat \<Rightarrow> string \<Rightarrow> nat \<Rightarrow> string" where
  "chunk_at maxSize data i =
     (let start = i * maxSize;
          endIdx = min (start + maxSize) (length data)
      in substring data (int start) (int endIdx))"

function chunk_loop :: "nat \<Rightarrow> string \<Rightarrow> nat \<Rightarrow> nat \<Rightarrow> (nat \<times> string) list" where
  "chunk_loop maxSize data totalChunks i =
     (if i < totalChunks
      then (i, chunk_at maxSize data i) # chunk_loop maxSize data totalChunks (Suc i)
      else [])"
  by pat_completeness auto
termination
  by (relation "measure (\<lambda>(m, d, n, i). n - i)") auto

declare chunk_loop.simps [simp del]

text \<open>\<open>totalChunks = Math.ceil(data.length / MAX)\<close>, then the loop from \<open>i = 0\<close>.\<close>

definition chunker :: "nat \<Rightarrow> string \<Rightarrow> (nat \<times> string) list" where
  "chunker maxSize data = chunk_loop maxSize data (ceil_div (length data) maxSize) 0"

text \<open>
  The receiving side (\<open>chunks: []\<close>, then \<open>chunks[message.chunkIndex] = message.chunk\<close>
  per chunk message, then \<open>chunks.join('')\<close>).
\<close>

definition reassemble :: "(nat \<times> string) list \<Rightarrow> string" where
  "reassemble msgs = join_empty (foldl (\<lambda>chunks (i, c). array_set chunks i c) [] msgs)"

section \<open>Dispatcher to worker: the upload of an archive\<close>

text \<open>Messages posted on the port by the dispatcher (the last argument is \<open>tabId\<close>).\<close>

datatype worker_msg =
    TRANSCODE string nat
  | EXTRACT_ZIP string nat
  | EXTRACT_ZIP_DATA string nat
  | EXTRACT_ZIP_DATA_START nat nat nat
  | EXTRACT_ZIP_DATA_CHUNK nat string
  | EXTRACT_ZIP_DATA_END nat

text \<open>
  \<open>handleExtractZipProcess\<close>, "Send to offscreen, chunking if necessary": the messages
  posted for the reassembled \<open>zipBase64\<close>.
\<close>

definition post_zip :: "string \<Rightarrow> nat \<Rightarrow> worker_msg list" where
  "post_zip zipBase64 tabId =
     (if length zipBase64 > MAX_CHUNK_SIZE then
        (let totalChunks = ceil_div (length zipBase64) MAX_CHUNK_SIZE
         in EXTRACT_ZIP_DATA_START totalChunks (length zipBase64) tabId
            # map (\<lambda>(i, c). EXTRACT_ZIP_DATA_CHUNK i c)
                (chunk_loop MAX_CHUNK_SIZE zipBase64 totalChunks 0)
            @ [EXTRACT_ZIP_DATA_END tabId])
      else [EXTRACT_ZIP_DATA zipBase64 tabId])"

text \<open>
  The worker's port listener. \<open>chunkedInput\<close> is its staging record; the jobs it starts
  (each an asynchronous call whose result goes to \<open>sendResult\<close>) are returned.
\<close>

record chunked_input =
  ci_totalChunks :: nat
  ci_chunks :: js_array
  ci_received :: nat
  ci_tabId :: nat

datatype worker_job =
    RunTranscodeVideo string nat
  | RunExtractZipVideo string nat
  | RunExtractZipFromData string nat

fun offscreen_onMessage ::
  "worker_msg \<Rightarrow> chunked_input option \<Rightarrow> chunked_input option \<times> worker_job list" where
  "offscreen_onMessage (TRANSCODE videoUrl tab) ci = (ci, [RunTranscodeVideo videoUrl tab])"
| "offscreen_onMessage (EXTRACT_ZIP zipUrl tab) ci = (ci, [RunExtractZipVideo zipUrl tab])"
| "offscreen_onMessage (EXTRACT_ZIP_DATA zipBase64 tab) ci =
     (ci, [RunExtractZipFromData zipBase64 tab])"
| "offscreen_onMessage (EXTRACT_ZIP_DATA_START n len tab) ci =
     (Some \<lparr>ci_totalChunks = n, ci_chunks = [], ci_received = 0, ci_tabId = tab\<rparr>, [])"
| "offscreen_onMessage (EXTRACT_ZIP_DATA_CHUNK i c) (Some ci) =
     (Some (ci\<lparr>ci_chunks := array_set (ci_chunks ci) i c, ci_received := ci_received ci + 1\<rparr>), [])"
| "offscreen_onMessage (EXTRACT_ZIP_DATA_CHUNK i c) None = (None, [])"
| "offscreen_onMessage (EXTRACT_ZIP_DATA_END tab) (Some ci) =
     (None, [RunExtractZipFromData (join_empty (ci_chunks ci)) (ci_tabId ci)])"
| "offscreen_onMessage (EXTRACT_ZIP_DATA_END tab) None = (None, [])"

fun offscreen_run ::
  "worker_msg list \<Rightarrow> chunked_input option \<Rightarrow> chunked_input option \<times> worker_job list" where
  "offscreen_run [] ci = (ci, [])"
| "offscreen_run (m # ms) ci =
     (let (ci', js) = offscreen_onMessage m ci;
          (ci'', js') = offscreen_run ms ci'
      in (ci'', js @ js'))"

text \<open>
  The client's pull loop for a stored result (content script):
  \<^verbatim>\<open>
  for (let i = 0; i < response.totalChunks; i++) {
    const chunkResp = await chrome.runtime.sendMessage({ type: 'GET_RESULT_CHUNK', ... chunkIndex: i });
    if (chunkResp.error) throw new Error(chunkResp.error);
    chunks.push(chunkResp.chunk);
  }
  \<close>
  run against the dispatcher's \<open>handleGetResultChunk\<close>.
\<close>

function pull_loop ::
  "string \<Rightarrow> nat \<Rightarrow> nat \<Rightarrow> string list \<Rightarrow> result_storage
     \<Rightarrow> error + (string list \<times> result_storage)" where
  "pull_loop resultId totalChunks i chunks resultStorage =
     (if i < totalChunks then
        (case handleGetResultChunk resultId (int i) resultStorage of
           Inl e \<Rightarrow> Inl e
         | Inr (resp, resultStorage') \<Rightarrow>
             pull_loop resultId totalChunks (Suc i) (chunks @ [chunk resp]) resultStorage')
      else Inr (chunks, resultStorage))"
  by pat_completeness auto
termination
  by (relation "measure (\<lambda>(r, n, i, c, s). n - i)") auto

declare pull_loop.simps [simp del]

section \<open>Dispatcher: staging of a chunked upload\<close>

text \<open>
  An entry of \<open>chunkStorage\<close>: \<open>{ chunks: new Array(totalChunks), totalChunks, received: 0 }\<close>.
\<close>

record transfer =
  cs_chunks :: js_array
  cs_totalChunks :: nat
  cs_received :: nat

type_synonym chunk_storage = "string \<rightharpoonup> transfer"

record chunk_ack =
  success :: bool
  received :: nat
  total :: nat

text \<open>
  \<open>handleExtractZipChunk(transferId, chunkIndex, totalChunks, chunk)\<close>: the entry is
  created by the first chunk message of a transfer, with the total that message declares;
  every message writes its slot and counts one more received.
\<close>

definition handleExtractZipChunk ::
  "string \<Rightarrow> nat \<Rightarrow> nat \<Rightarrow> string \<Rightarrow> chunk_storage \<Rightarrow> chunk_ack \<times> chunk_storage" where
  "handleExtractZipChunk transferId chunkIndex totalChunks ch chunkStorage =
     (let storage =
            (case chunkStorage transferId of
               None \<Rightarrow> \<lparr>cs_chunks = replicate totalChunks None, cs_totalChunks = totalChunks,
                         cs_received = 0\<rparr>
             | Some st \<Rightarrow> st);
          storage' = storage\<lparr>cs_chunks := array_set (cs_chunks storage) chunkIndex ch,
                              cs_received := cs_received storage + 1\<rparr>
      in (\<lparr>success = True, received = cs_received storage', total = totalChunks\<rparr>,
          chunkStorage(transferId \<mapsto> storage')))"

text \<open>The chunk messages of one transfer, handled in their order of arrival.\<close>

fun receive_chunks :: "string \<Rightarrow> nat \<Rightarrow> (nat \<times> string) list \<Rightarrow> chunk_storage \<Rightarrow> chunk_storage" where
  "receive_chunks transferId totalChunks [] chunkStorage = chunkStorage"
| "receive_chunks transferId totalChunks ((i, c) # ms) chunkStorage =
     receive_chunks transferId totalChunks ms
       (snd (handleExtractZipChunk transferId i totalChunks c chunkStorage))"

text \<open>
  The head of \<open>handleExtractZipProcess(transferId, tabId)\<close>, up to "Combine all chunks"
  and the clean-up: the two thrown errors, or the reassembled \<open>zipBase64\<close> and the
  storage without the entry.
\<close>

definition process_transfer :: "string \<Rightarrow> chunk_storage \<Rightarrow> error + (string \<times> chunk_storage)" where
  "process_transfer transferId chunkStorage =
     (case chunkStorage transferId of
        None \<Rightarrow> Inl (TransferNotFound transferId)
      | Some storage \<Rightarrow>
          if cs_received storage \<noteq> cs_totalChunks storage
          then Inl (IncompleteTransfer (cs_received storage) (cs_totalChunks storage))
          else Inr (join_empty (cs_chunks storage), chunkStorage(transferId := None)))"

text \<open>
  The slot array of a transfer whose declared chunks are \<open>cks\<close>, after the chunk messages
  with the indices in \<open>S\<close> have arrived (used to state what staging has reached).
\<close>

definition slots :: "string list \<Rightarrow> nat set \<Rightarrow> js_array" where
  "slots cks S = map (\<lambda>i. if i \<in> S then Some (cks ! i) else None) [0..<length cks]"

section \<open>Results and their transport\<close>

text \<open>
  A job's result: \<open>{ base64, mimeType }\<close> (the extraction paths add the constant field
  \<open>needsTranscode: false\<close>, which nothing in the transport reads), or
  \<open>{ videos: [{ name, base64, mimeType }, ...], multiple: true }\<close>.
\<close>

record video =
  name :: string
  base64 :: string
  mimeType :: string

datatype result =
    Single string string
  | Multi "video list"

text \<open>
  \<open>JSON.stringify\<close> of a multi-video result, after ECMA-262 (\<open>QuoteJSONString\<close>): keys
  in insertion order, no white space, strings in double quotes with the quote, the
  backslash and the control characters escaped. \<open>CHR 0x22\<close> is the double quote and
  \<open>CHR 0x5C\<close> the backslash.
\<close>

definition hex_digit :: "nat \<Rightarrow> char" where
  "hex_digit n = ''0123456789abcdef'' ! n"

definition json_escape :: "char \<Rightarrow> string" where
  "json_escape c =
     (let n = (of_char c :: nat) in
      if n = 8 then [CHR 0x5C, CHR ''b'']
      else if n = 9 then [CHR 0x5C, CHR ''t'']
      else if n = 10 then [CHR 0x5C, CHR ''n'']
      else if n = 12 then [CHR 0x5C, CHR ''f'']
      else if n = 13 then [CHR 0x5C, CHR ''r'']
      else if n = 0x22 then [CHR 0x5C, CHR 0x22]
      else if n = 0x5C then [CHR 0x5C, CHR 0x5C]
      else if n < 0x20 then
        [CHR 0x5C, CHR ''u'', CHR ''0'', CHR ''0'', hex_digit (n div 16), hex_digit (n mod 16)]
      else [c])"

definition JSON_quote :: "string \<Rightarrow> string" where
  "JSON_quote s = CHR 0x22 # concat (map json_escape s) @ [CHR 0x22]"

definition JSON_key :: "string \<Rightarrow> string" where
  "JSON_key k = CHR 0x22 # k @ [CHR 0x22, CHR '':'']"

definition JSON_video :: "video \<Rightarrow> string" where
  "JSON_video v =
     ''{'' @ JSON_key ''name'' @ JSON_quote (name v) @ '','' @
     JSON_key ''base64'' @ JSON_quote (base64 v) @ '','' @
     JSON_key ''mimeType'' @ JSON_quote (mimeType v) @ ''}''"

fun join_comma :: "string list \<Rightarrow> string" where
  "join_comma [] = []"
| "join_comma [x] = x"
| "join_comma (x # y # ys) = x @ '','' @ join_comma (y # ys)"

definition JSON_stringify :: "video list \<Rightarrow> string" where
  "JSON_stringify vs =
     ''{'' @ JSON_key ''videos'' @ ''['' @ join_comma (map JSON_video vs) @ '']'' @ '','' @
     JSON_key ''multiple'' @ ''true'' @ ''}''"

text \<open>
  "Calculate total size of result" (the same code in \<open>sendResult\<close> and in
  \<open>handleExtractZipProcess\<close>): the length of \<open>base64\<close> when the result has one (an empty
  \<open>base64\<close> is falsy and leaves the size at 0, its length), else the sum over the videos.
\<close>

fun totalSize :: "result \<Rightarrow> nat" where
  "totalSize (Single b64 mime) = length b64"
| "totalSize (Multi vs) = foldl (\<lambda>sum v. sum + length (base64 v)) 0 vs"

text \<open>Messages posted on the port by the worker.\<close>

datatype port_msg =
    READY
  | PROGRESS nat string int
  | RESULT "string option" "result option"
  | RESULT_CHUNKED_START "string option" bool nat nat
  | RESULT_CHUNK nat string
  | RESULT_CHUNKED_END

definition MAX_MESSAGE_SIZE :: nat where
  "MAX_MESSAGE_SIZE = 32 * 1024 * 1024"

text \<open>
  \<open>sendResult(result)\<close> of the worker: the messages it posts. \<open>RESULT error result\<close>
  carries the two optional fields of a result message; \<open>RESULT_CHUNKED_START\<close> carries
  \<open>mimeType\<close> (absent for several videos), \<open>isMultipleVideos\<close>, \<open>totalChunks\<close> and
  \<open>totalLength\<close>.
\<close>

definition sendResult :: "result \<Rightarrow> port_msg list" where
  "sendResult res =
     (if totalSize res \<le> MAX_MESSAGE_SIZE then [RESULT None (Some res)]
      else
        (case res of
           Multi vs \<Rightarrow>
             (let jsonStr = JSON_stringify vs;
                  totalChunks = ceil_div (length jsonStr) MAX_MESSAGE_SIZE
              in RESULT_CHUNKED_START None True totalChunks (length jsonStr)
                 # map (\<lambda>(i, c). RESULT_CHUNK i c) (chunk_loop MAX_MESSAGE_SIZE jsonStr totalChunks 0)
                 @ [RESULT_CHUNKED_END])
         | Single b64 mime \<Rightarrow>
             (let totalChunks = ceil_div (length b64) MAX_MESSAGE_SIZE
              in RESULT_CHUNKED_START (Some mime) False totalChunks (length b64)
                 # map (\<lambda>(i, c). RESULT_CHUNK i c) (chunk_loop MAX_MESSAGE_SIZE b64 totalChunks 0)
                 @ [RESULT_CHUNKED_END])))"

text \<open>
  The dispatcher's answer to the client: the result itself, or
  \<open>{ chunked: true, resultId, totalChunks, totalLength, mimeType | isMultipleVideos }\<close>.
\<close>

datatype response =
    Inline result
  | Chunked string nat nat "string option" bool

text \<open>
  The tail of \<open>handleExtractZipProcess\<close>, after \<open>await resultPromise\<close>: "Check if result
  is too large to send in one message".
\<close>

definition respond_process :: "string \<Rightarrow> result \<Rightarrow> result_storage \<Rightarrow> response \<times> result_storage" where
  "respond_process transferId res resultStorage =
     (if totalSize res > MAX_RESPONSE_SIZE then
        (let resultId = transferId @ ''_result'' in
         case res of
           Multi vs \<Rightarrow>
             (let jsonStr = JSON_stringify vs
              in (Chunked resultId (ceil_div (length jsonStr) MAX_RESPONSE_SIZE) (length jsonStr)
                    None True,
                  resultStorage(resultId \<mapsto> StoredJson jsonStr)))
         | Single b64 mime \<Rightarrow>
             (Chunked resultId (ceil_div (length b64) MAX_RESPONSE_SIZE) (length b64)
                (Some mime) False,
              resultStorage(resultId \<mapsto> StoredSingle b64 mime)))
      else (Inline res, resultStorage))"

text \<open>
  The tail of \<open>handleExtractZipData\<close>; \<open>now\<close> is \<open>Date.now().toString()\<close>. Only a result
  with a \<open>base64\<close> field is ever stored here.
\<close>

definition respond_data :: "string \<Rightarrow> result \<Rightarrow> result_storage \<Rightarrow> response \<times> result_storage" where
  "respond_data now res resultStorage =
     (case res of
        Single b64 mime \<Rightarrow>
          if b64 \<noteq> [] \<and> length b64 > MAX_RESPONSE_SIZE then
            (let resultId = now @ ''_result''
             in (Chunked resultId (ceil_div (length b64) MAX_RESPONSE_SIZE) (length b64)
                   (Some mime) False,
                 resultStorage(resultId \<mapsto> StoredSingle b64 mime)))
          else (Inline res, resultStorage)
      | Multi vs \<Rightarrow> (Inline res, resultStorage))"

text \<open>
  The client's upload of the archive text (content script, \<open>extractZipVideo\<close>): the
  requests it sends to the dispatcher when none of them is answered with an error.
\<close>

datatype request =
    Req_EXTRACT_ZIP_DATA string
  | Req_EXTRACT_ZIP_CHUNK string nat nat string
  | Req_EXTRACT_ZIP_PROCESS string

definition client_upload :: "string \<Rightarrow> string \<Rightarrow> request list" where
  "client_upload transferId zipBase64 =
     (if length zipBase64 > MAX_CHUNK_SIZE then
        (let totalChunks = ceil_div (length zipBase64) MAX_CHUNK_SIZE
         in map (\<lambda>(i, c). Req_EXTRACT_ZIP_CHUNK transferId i totalChunks c)
                (chunk_loop MAX_CHUNK_SIZE zipBase64 totalChunks 0)
            @ [Req_EXTRACT_ZIP_PROCESS transferId])
      else [Req_EXTRACT_ZIP_DATA zipBase64])"

section \<open>Dispatcher: the pending-job slot, its timers and the port listener\<close>

text \<open>
  Every \<open>resultPromise\<close> the dispatcher creates is an entry of \<open>promises\<close>, in the order
  of creation. \<open>resolve\<close> and \<open>reject\<close> of a promise settle it once; on a settled promise
  they do nothing. A resolved value is \<open>message.result\<close>, which a message may lack.
\<close>

datatype settle =
    Pending
  | Resolved "result option"
  | Rejected error

text \<open>\<open>chunkedResult\<close>, the staging record for a chunked result from the worker.\<close>

record chunked_result =
  cr_mimeType :: "string option"
  cr_isMultipleVideos :: bool
  cr_totalChunks :: nat
  cr_chunks :: js_array
  cr_received :: nat

text \<open>
  The dispatcher's state, as far as jobs are concerned: \<open>pendingTranscode\<close> holds the
  \<open>{ resolve, reject }\<close> pair of one promise, named here by the promise's index;
  \<open>timers\<close> are the armed \<open>setTimeout\<close> callbacks, each with its due time in milliseconds
  and the message of the error it rejects with; \<open>posted\<close> are the messages posted to the
  worker; \<open>uncaught\<close> are the exceptions that left the port listener. The connection to the
  worker is taken as established (\<open>ensureOffscreenDocument\<close> has returned), and the
  relay of progress messages to the tab leaves this state alone.
\<close>

record dispatcher =
  pendingTranscode :: "nat option"
  promises :: "settle list"
  timers :: "(nat \<times> string) list"
  chunkedResult :: "chunked_result option"
  clock :: nat
  posted :: "worker_msg list"
  uncaught :: "error list"

definition resolve :: "nat \<Rightarrow> result option \<Rightarrow> dispatcher \<Rightarrow> dispatcher" where
  "resolve p v s =
     (if p < length (promises s) \<and> promises s ! p = Pending
      then s\<lparr>promises := (promises s)[p := Resolved v]\<rparr> else s)"

definition reject :: "nat \<Rightarrow> error \<Rightarrow> dispatcher \<Rightarrow> dispatcher" where
  "reject p e s =
     (if p < length (promises s) \<and> promises s ! p = Pending
      then s\<lparr>promises := (promises s)[p := Rejected e]\<rparr> else s)"

text \<open>
  The four job handlers share their middle part: a new promise whose pair goes into the
  slot, a timer, and the message(s) to the worker. They differ in the timeout, in the
  timeout's message and in what they post. \<open>JobExtractZipProcess\<close> carries the archive
  text that \<open>handleExtractZipProcess\<close> has reassembled.
\<close>

datatype job =
    JobTranscode string nat
  | JobExtractZip string nat
  | JobExtractZipData string nat
  | JobExtractZipProcess string nat

fun timeout_ms :: "job \<Rightarrow> nat" where
  "timeout_ms (JobTranscode videoUrl tab) = 5 * 60 * 1000"
| "timeout_ms (JobExtractZip zipUrl tab) = 5 * 60 * 1000"
| "timeout_ms (JobExtractZipData zipBase64 tab) = 5 * 60 * 1000"
| "timeout_ms (JobExtractZipProcess zipBase64 tab) = 10 * 60 * 1000"

fun timeout_message :: "job \<Rightarrow> string" where
  "timeout_message (JobTranscode videoUrl tab) = ''Transcoding timed out''"
| "timeout_message (JobExtractZip zipUrl tab) = ''ZIP extraction timed out''"
| "timeout_message (JobExtractZipData zipBase64 tab) = ''ZIP extraction timed out''"
| "timeout_message (JobExtractZipProcess zipBase64 tab) = ''ZIP extraction timed out''"

fun job_messages :: "job \<Rightarrow> worker_msg list" where
  "job_messages (JobTranscode videoUrl tab) = [TRANSCODE videoUrl tab]"
| "job_messages (JobExtractZip zipUrl tab) = [EXTRACT_ZIP zipUrl tab]"
| "job_messages (JobExtractZipData zipBase64 tab) = [EXTRACT_ZIP_DATA zipBase64 tab]"
| "job_messages (JobExtractZipProcess zipBase64 tab) = post_zip zipBase64 tab"

text \<open>
  \<^verbatim>\<open>
  const resultPromise = new Promise((resolve, reject) => {
    pendingTranscode = { resolve, reject };
    setTimeout(() => { ... }, 5 * 60 * 1000);
  });
  offscreenPort.postMessage({ ... });
  \<close>
\<close>

definition submit :: "job \<Rightarrow> dispatcher \<Rightarrow> dispatcher" where
  "submit j s =
     s\<lparr>promises := promises s @ [Pending],
       pendingTranscode := Some (length (promises s)),
       timers := timers s @ [(clock s + timeout_ms j, timeout_message j)],
       posted := posted s @ job_messages j\<rparr>"

text \<open>
  The timer's callback reads the slot, not the pair of the job that armed it:
  \<^verbatim>\<open>
  if (pendingTranscode) {
    pendingTranscode.reject(new Error('Transcoding timed out'));
    pendingTranscode = null;
  }
  \<close>
\<close>

definition timer_callback :: "string \<Rightarrow> dispatcher \<Rightarrow> dispatcher" where
  "timer_callback msg s =
     (case pendingTranscode s of
        None \<Rightarrow> s
      | Some p \<Rightarrow> (reject p (TimedOut msg) s)\<lparr>pendingTranscode := None\<rparr>)"

text \<open>
  Time passes to \<open>t\<close>: the timers that are due by then run, earliest first and in the
  order of arming among equals, and are gone.
\<close>

definition advance :: "nat \<Rightarrow> dispatcher \<Rightarrow> dispatcher" where
  "advance t s =
     foldl (\<lambda>s' (due, msg). timer_callback msg s')
       (s\<lparr>timers := filter (\<lambda>(due, msg). \<not> due \<le> t) (timers s), clock := max (clock s) t\<rparr>)
       (sort_key fst (filter (\<lambda>(due, msg). due \<le> t) (timers s)))"

text \<open>\<open>if (message.error)\<close>: the field is there and is not the empty string.\<close>

fun truthy :: "string option \<Rightarrow> bool" where
  "truthy None = False"
| "truthy (Some e) = (e \<noteq> [])"

text \<open>
  The listener on the worker's port. \<open>JSON_parse\<close> stands for \<open>JSON.parse\<close>, which
  throws on malformed text; an exception leaves the listener before it has changed
  anything. A chunked single-video start message carries \<open>mimeType\<close>; were it missing,
  the result's \<open>mimeType\<close> would be \<open>undefined\<close>, read here as the empty string.
\<close>

definition port_onMessage ::
  "(string \<Rightarrow> error + result) \<Rightarrow> port_msg \<Rightarrow> dispatcher \<Rightarrow> dispatcher" where
  "port_onMessage JSON_parse message s =
     (case message of
        READY \<Rightarrow> s
      | PROGRESS tab status progress \<Rightarrow> s
      | RESULT err res \<Rightarrow>
          (case pendingTranscode s of
             None \<Rightarrow> s
           | Some p \<Rightarrow>
               (if truthy err then reject p (WorkerError (the err)) s else resolve p res s)
               \<lparr>pendingTranscode := None\<rparr>)
      | RESULT_CHUNKED_START mime multi n len \<Rightarrow>
          s\<lparr>chunkedResult := Some \<lparr>cr_mimeType = mime, cr_isMultipleVideos = multi,
                 cr_totalChunks = n, cr_chunks = [], cr_received = 0\<rparr>\<rparr>
      | RESULT_CHUNK i c \<Rightarrow>
          (case chunkedResult s of
             None \<Rightarrow> s
           | Some cr \<Rightarrow>
               s\<lparr>chunkedResult := Some (cr\<lparr>cr_chunks := array_set (cr_chunks cr) i c,
                                            cr_received := cr_received cr + 1\<rparr>)\<rparr>)
      | RESULT_CHUNKED_END \<Rightarrow>
          (case chunkedResult s of
             None \<Rightarrow> s
           | Some cr \<Rightarrow>
               (case pendingTranscode s of
                  None \<Rightarrow> s
                | Some p \<Rightarrow>
                    (let combined = join_empty (cr_chunks cr) in
                     if cr_isMultipleVideos cr then
                       (case JSON_parse combined of
                          Inl e \<Rightarrow> s\<lparr>uncaught := uncaught s @ [e]\<rparr>
                        | Inr res \<Rightarrow>
                            (resolve p (Some res) (s\<lparr>chunkedResult := None\<rparr>))
                            \<lparr>pendingTranscode := None\<rparr>)
                     else
                       (resolve p
                          (Some (Single combined (case cr_mimeType cr of None \<Rightarrow> [] | Some m \<Rightarrow> m)))
                          (s\<lparr>chunkedResult := None\<rparr>))
                       \<lparr>pendingTranscode := None\<rparr>))))"

text \<open>What happens to the dispatcher: a job is submitted, a message arrives, time passes.\<close>

datatype event =
    Submit job
  | Port port_msg
  | Advance nat

fun step :: "(string \<Rightarrow> error + result) \<Rightarrow> event \<Rightarrow> dispatcher \<Rightarrow> dispatcher" where
  "step JSON_parse (Submit j) s = submit j s"
| "step JSON_parse (Port m) s = port_onMessage JSON_parse m s"
| "step JSON_parse (Advance t) s = advance t s"

definition run :: "(string \<Rightarrow> error + result) \<Rightarrow> event list \<Rightarrow> dispatcher \<Rightarrow> dispatcher" where
  "run JSON_parse evs s = foldl (\<lambda>s' ev. step JSON_parse ev s') s evs"

text \<open>The dispatcher when the service worker has started.\<close>

definition initial :: dispatcher where
  "initial = \<lparr>pendingTranscode = None, promises = [], timers = [], chunkedResult = None,
              clock = 0, posted = [], uncaught = []\<rparr>"

section \<open>Two predicates on dispatcher states\<close>

text \<open>A promise that does not hold the slot is out of reach of every handler.\<close>

definition orphaned :: "nat \<Rightarrow> dispatcher \<Rightarrow> bool" where
  "orphaned a s \<longleftrightarrow> a < length (promises s) \<and> promises s ! a = Pending \<and> pendingTranscode s \<noteq> Some a"

text \<open>The promise whose pair is in the slot is pending.\<close>

definition slot_ok :: "dispatcher \<Rightarrow> bool" where
  "slot_ok s \<longleftrightarrow>
     (case pendingTranscode s of None \<Rightarrow> True
      | Some p \<Rightarrow> p < length (promises s) \<and> promises s ! p = Pending)"

section \<open>Binary data as text: base64\<close>

text \<open>
  The platform's \<open>btoa\<close> and \<open>atob\<close>, after RFC 4648 and the HTML standard
  ("forgiving-base64 encode" and "forgiving-base64 decode"). A binary string is a
  \<open>string\<close> here, so every code unit is below 256 and \<open>btoa\<close> cannot throw its
  \<open>InvalidCharacterError\<close>.
\<close>

definition b64_alphabet :: string where
  "b64_alphabet = ''ABCDEFGHIJKLMNOPQRSTUVWXYZabcdefghijklmnopqrstuvwxyz0123456789+/''"

definition b64_char :: "nat \<Rightarrow> char" where
  "b64_char n = b64_alphabet ! n"

fun index_of :: "'a \<Rightarrow> 'a list \<Rightarrow> nat option" where
  "index_of x [] = None"
| "index_of x (y # ys) = (if x = y then Some 0 else map_option Suc (index_of x ys))"

definition b64_index :: "char \<Rightarrow> nat option" where
  "b64_index c = index_of c b64_alphabet"

text \<open>Three bytes give four characters; one or two bytes at the end are padded with \<open>=\<close>.\<close>

fun btoa_bytes :: "nat list \<Rightarrow> string" where
  "btoa_bytes [] = []"
| "btoa_bytes [a] = [b64_char (a div 4), b64_char ((a mod 4) * 16), CHR ''='', CHR ''='']"
| "btoa_bytes [a, b] =
     [b64_char (a div 4), b64_char ((a mod 4) * 16 + b div 16), b64_char ((b mod 16) * 4),
      CHR ''='']"
| "btoa_bytes (a # b # c # rest) =
     [b64_char (a div 4), b64_char ((a mod 4) * 16 + b div 16),
      b64_char ((b mod 16) * 4 + c div 64), b64_char (c mod 64)] @ btoa_bytes rest"

definition btoa :: "string \<Rightarrow> string" where
  "btoa s = btoa_bytes (map of_char s)"

definition is_ascii_whitespace :: "char \<Rightarrow> bool" where
  "is_ascii_whitespace c \<longleftrightarrow> (of_char c :: nat) \<in> {9, 10, 12, 13, 32}"

text \<open>
  "If the length divides by 4 leaving no remainder, then: if data ends with one or two
  \<open>=\<close>, remove them."
\<close>

definition strip_padding :: "string \<Rightarrow> string" where
  "strip_padding s =
     (if length s mod 4 = 0 \<and> s \<noteq> [] \<and> last s = CHR ''='' then
        (if butlast s \<noteq> [] \<and> last (butlast s) = CHR ''='' then butlast (butlast s)
         else butlast s)
      else s)"

text \<open>
  Four 6-bit values give three bytes; of two values left at the end the last four bits
  are dropped, of three the last two.
\<close>

fun atob_sextets :: "nat list \<Rightarrow> nat list" where
  "atob_sextets (w # x # y # z # rest) =
     [w * 4 + x div 16, (x mod 16) * 16 + y div 4, (y mod 4) * 64 + z] @ atob_sextets rest"
| "atob_sextets [w, x, y] = [w * 4 + x div 16, (x mod 16) * 16 + y div 4]"
| "atob_sextets [w, x] = [w * 4 + x div 16]"
| "atob_sextets [w] = []"
| "atob_sextets [] = []"

definition atob :: "string \<Rightarrow> error + string" where
  "atob input =
     (let data = strip_padding (filter (\<lambda>c. \<not> is_ascii_whitespace c) input) in
      if length data mod 4 = 1 then Inl InvalidCharacterError
      else
        (case those (map b64_index data) of
           None \<Rightarrow> Inl InvalidCharacterError
         | Some sextets \<Rightarrow> Inr (map char_of (atob_sextets sextets))))"

text \<open>
  \<open>String.fromCharCode.apply(null, chunk)\<close> on bytes, \<open>data.subarray(begin, end)\<close> with
  \<open>0 \<le> begin\<close> and \<open>end \<le> data.length\<close>, and the worker's
  \<^verbatim>\<open>
  function uint8ToBase64(data) {
    const chunkSize = 32768;
    let base64 = '';
    for (let i = 0; i < data.length; i += chunkSize) {
      const chunk = data.subarray(i, Math.min(i + chunkSize, data.length));
      base64 += String.fromCharCode.apply(null, chunk);
    }
    return btoa(base64);
  }
  \<close>
\<close>

definition fromCharCode :: "8 word list \<Rightarrow> string" where
  "fromCharCode codes = map (\<lambda>b. char_of (unat b)) codes"

definition subarray :: "8 word list \<Rightarrow> nat \<Rightarrow> nat \<Rightarrow> 8 word list" where
  "subarray data begin endIdx = take (endIdx - begin) (drop begin data)"

function binary_loop :: "8 word list \<Rightarrow> nat \<Rightarrow> string \<Rightarrow> string" where
  "binary_loop data i acc =
     (if i < length data
      then binary_loop data (i + 32768)
             (acc @ fromCharCode (subarray data i (min (i + 32768) (length data))))
      else acc)"
  by pat_completeness auto
termination
  by (relation "measure (\<lambda>(data, i, acc). length data - i)") auto

declare binary_loop.simps [simp del]

definition uint8ToBase64 :: "8 word list \<Rightarrow> string" where
  "uint8ToBase64 data = btoa (binary_loop data 0 [])"

text \<open>
  The decoding loop, which the client's \<open>base64ToBlobUrl\<close> and \<open>transcodeVideo\<close> and the
  worker's \<open>extractZipFromData\<close> share:
  \<^verbatim>\<open>
  const binaryString = atob(base64);
  const bytes = new Uint8Array(binaryString.length);
  for (let i = 0; i < binaryString.length; i++) bytes[i] = binaryString.charCodeAt(i);
  \<close>
  A store into a \<open>Uint8Array\<close> keeps the value modulo 256.
\<close>

definition base64ToBytes :: "string \<Rightarrow> error + 8 word list" where
  "base64ToBytes b64 =
     (case atob b64 of
        Inl e \<Rightarrow> Inl e
      | Inr binaryString \<Rightarrow> Inr (map (\<lambda>c. of_nat (of_char c)) binaryString))"

text \<open>
  \<open>base64ToBlobUrl(base64, mimeType)\<close>: the URL it returns names a \<open>Blob\<close> with these
  bytes and this type, and the blob stands for the URL here.
\<close>

definition base64ToBlobUrl :: "string \<Rightarrow> string \<Rightarrow> error + (8 word list \<times> string)" where
  "base64ToBlobUrl b64 mime =
     (case base64ToBytes b64 of
        Inl e \<Rightarrow> Inl e
      | Inr bytes \<Rightarrow> Inr (bytes, mime))"

text \<open>
  The 6-bit values and the number of padding characters of an encoding, to state what
  \<open>btoa_bytes\<close> produces.
\<close>

fun enc_sextets :: "nat list \<Rightarrow> nat list" where
  "enc_sextets [] = []"
| "enc_sextets [a] = [a div 4, (a mod 4) * 16]"
| "enc_sextets [a, b] = [a div 4, (a mod 4) * 16 + b div 16, (b mod 16) * 4]"
| "enc_sextets (a # b # c # rest) =
     [a div 4, (a mod 4) * 16 + b div 16, (b mod 16) * 4 + c div 64, c mod 64] @ enc_sextets rest"

fun enc_pad :: "nat list \<Rightarrow> nat" where
  "enc_pad [] = 0"
| "enc_pad [a] = 2"
| "enc_pad [a, b] = 1"
| "enc_pad (a # b # c # rest) = enc_pad rest"

section \<open>Worker: extraction of the videos of an archive\<close>

definition NATIVE_FORMATS :: "string list" where
  "NATIVE_FORMATS = [''mp4'', ''webm'', ''ogg'', ''m4v'']"

definition TRANSCODE_FORMATS :: "string list" where
  "TRANSCODE_FORMATS = [''avi'', ''mkv'', ''flv'', ''wmv'', ''mov'']"

text \<open>
  \<open>toLowerCase\<close> on code units below 256: the letters \<open>A\<close> to \<open>Z\<close>, and the Latin-1
  capitals from 0xC0 to 0xDE without the multiplication sign 0xD7.
\<close>

definition toLowerCase_unit :: "char \<Rightarrow> char" where
  "toLowerCase_unit c =
     (let n = (of_char c :: nat) in
      if (65 \<le> n \<and> n \<le> 90) \<or> (192 \<le> n \<and> n \<le> 222 \<and> n \<noteq> 215) then char_of (n + 32) else c)"

definition toLowerCase :: "string \<Rightarrow> string" where
  "toLowerCase s = map toLowerCase_unit s"

definition startsWith :: "string \<Rightarrow> string \<Rightarrow> bool" where
  "startsWith s p \<longleftrightarrow> take (length p) s = p"

definition endsWith :: "string \<Rightarrow> string \<Rightarrow> bool" where
  "endsWith s p \<longleftrightarrow> length p \<le> length s \<and> drop (length s - length p) s = p"

text \<open>\<open>videoFileName.split('.').pop()\<close>: what follows the last dot, or the whole name.\<close>

definition split_pop :: "string \<Rightarrow> string" where
  "split_pop s = rev (takeWhile (\<lambda>c. c \<noteq> CHR ''.'') (rev s))"

definition mimeTypes :: "string \<Rightarrow> string option" where
  "mimeTypes = map_of [(''mp4'', ''video/mp4''), (''webm'', ''video/webm''),
                        (''ogg'', ''video/ogg''), (''m4v'', ''video/mp4'')]"

text \<open>
  An entry of \<open>zip.files\<close>, as the archive reader gives it: the directory flag, and what
  \<open>file.async('uint8array')\<close> yields or throws. \<open>zip.files\<close> is the list of the entries
  with their names, in the order of \<open>Object.keys\<close>.
\<close>

record zip_entry =
  dir :: bool
  content :: "error + 8 word list"

type_synonym zip_files = "(string \<times> zip_entry) list"

text \<open>
  The test of the loop over \<open>Object.keys(zip.files)\<close>: not a directory, not under
  \<open>__MACOSX\<close>, no leading dot, and the lower-cased name ends with a dot and one of the
  nine extensions.
\<close>

definition is_video_entry :: "string \<Rightarrow> zip_entry \<Rightarrow> bool" where
  "is_video_entry fileName file =
     (let lowerName = toLowerCase fileName in
      \<not> (dir file \<or> startsWith lowerName ''__macosx'' \<or> startsWith lowerName ''.'')
      \<and> list_ex (\<lambda>ext. endsWith lowerName (''.'' @ ext)) (NATIVE_FORMATS @ TRANSCODE_FORMATS))"

definition video_entries :: "zip_files \<Rightarrow> zip_files" where
  "video_entries files = filter (\<lambda>(fileName, file). is_video_entry fileName file) files"

text \<open>
  \<open>videoFiles.sort((a, b) => a.name.localeCompare(b.name))\<close>. \<open>Array.prototype.sort\<close> is
  stable; it is an insertion sort here, with the comparator as a parameter, since
  \<open>localeCompare\<close> is the platform's collation.
\<close>

fun insort_cmp :: "('a \<Rightarrow> 'a \<Rightarrow> int) \<Rightarrow> 'a \<Rightarrow> 'a list \<Rightarrow> 'a list" where
  "insort_cmp cmp x [] = [x]"
| "insort_cmp cmp x (y # ys) = (if cmp x y \<le> 0 then x # y # ys else y # insort_cmp cmp x ys)"

definition sort_cmp :: "('a \<Rightarrow> 'a \<Rightarrow> int) \<Rightarrow> 'a list \<Rightarrow> 'a list" where
  "sort_cmp cmp xs = foldr (insort_cmp cmp) xs []"

text \<open>
  The loop over the sorted \<open>videoFiles\<close>. \<open>ffmpeg i ext data\<close> stands for the conversion
  of video number \<open>i\<close> (\<open>loadFFmpeg\<close>, \<open>writeFile\<close>, \<open>exec\<close>, \<open>readFile\<close> and the two
  \<open>deleteFile\<close>), which gives the converted bytes or throws. The progress reports are
  left out.
\<close>

fun process_videos ::
  "(nat \<Rightarrow> string \<Rightarrow> 8 word list \<Rightarrow> error + 8 word list) \<Rightarrow> nat \<Rightarrow> zip_files
     \<Rightarrow> error + video list" where
  "process_videos ffmpeg i [] = Inr []"
| "process_videos ffmpeg i ((videoFileName, videoFile) # rest) =
     (case content videoFile of
        Inl e \<Rightarrow> Inl e
      | Inr videoData \<Rightarrow>
          (let ext = toLowerCase (split_pop videoFileName) in
           if ext \<in> set NATIVE_FORMATS then
             (case process_videos ffmpeg (Suc i) rest of
                Inl e \<Rightarrow> Inl e
              | Inr results \<Rightarrow>
                  Inr (\<lparr>name = videoFileName, base64 = uint8ToBase64 videoData,
                        mimeType = (case mimeTypes ext of Some m \<Rightarrow> m | None \<Rightarrow> ''video/mp4'')\<rparr>
                       # results))
           else
             (case ffmpeg i ext videoData of
                Inl e \<Rightarrow> Inl e
              | Inr data \<Rightarrow>
                  (case process_videos ffmpeg (Suc i) rest of
                     Inl e \<Rightarrow> Inl e
                   | Inr results \<Rightarrow>
                       Inr (\<lparr>name = videoFileName, base64 = uint8ToBase64 data,
                             mimeType = ''video/mp4''\<rparr> # results)))))"

text \<open>\<open>extractZipFromData\<close> from "Find ALL video files in the zip" on.\<close>

definition extract_from_zip ::
  "(string \<Rightarrow> string \<Rightarrow> int) \<Rightarrow> (nat \<Rightarrow> string \<Rightarrow> 8 word list \<Rightarrow> error + 8 word list)
     \<Rightarrow> zip_files \<Rightarrow> error + result" where
  "extract_from_zip localeCompare ffmpeg files =
     (let videoFiles = video_entries files in
      if length videoFiles = 0 then Inl NoVideoFound
      else
        (let sorted = sort_cmp (\<lambda>a b. localeCompare (fst a) (fst b)) videoFiles in
         case process_videos ffmpeg 0 sorted of
           Inl e \<Rightarrow> Inl e
         | Inr results \<Rightarrow>
             if length results = 1
             then Inr (Single (base64 (results ! 0)) (mimeType (results ! 0)))
             else Inr (Multi results)))"

text \<open>
  \<open>extractZipFromData(zipBase64, tabId)\<close>: the text is decoded, \<open>JSZip.loadAsync\<close>
  (a parameter: the archive reader) reads the archive or throws, and the videos are
  extracted.
\<close>

definition extractZipFromData ::
  "(8 word list \<Rightarrow> error + zip_files) \<Rightarrow> (string \<Rightarrow> string \<Rightarrow> int)
     \<Rightarrow> (nat \<Rightarrow> string \<Rightarrow> 8 word list \<Rightarrow> error + 8 word list)
     \<Rightarrow> string \<Rightarrow> error + result" where
  "extractZipFromData loadAsync localeCompare ffmpeg zipBase64 =
     (case base64ToBytes zipBase64 of
        Inl e \<Rightarrow> Inl e
      | Inr zipData \<Rightarrow>
          (case loadAsync zipData of
             Inl e \<Rightarrow> Inl e
           | Inr files \<Rightarrow> extract_from_zip localeCompare ffmpeg files))"

text \<open>
  The archive's videos can all be read, and the engine converts each one that needs it.
\<close>

definition converts ::
  "(nat \<Rightarrow> string \<Rightarrow> 8 word list \<Rightarrow> error + 8 word list) \<Rightarrow> zip_files \<Rightarrow> bool" where
  "converts ffmpeg files \<longleftrightarrow>
     (\<forall>(fileName, file) \<in> set (video_entries files).
        \<exists>videoData. content file = Inr videoData \<and>
          (toLowerCase (split_pop fileName) \<notin> set NATIVE_FORMATS \<longrightarrow>
             (\<forall>i. \<exists>data. ffmpeg i (toLowerCase (split_pop fileName)) videoData = Inr data)))"

text \<open>A comparator for examples: by code units, as \<open>localeCompare\<close> orders lower-case ASCII names.\<close>

fun byCodeUnits :: "string \<Rightarrow> string \<Rightarrow> int" where
  "byCodeUnits [] [] = 0"
| "byCodeUnits [] (y # ys) = - 1"
| "byCodeUnits (x # xs) [] = 1"
| "byCodeUnits (x # xs) (y # ys) =
     (if (of_char x :: nat) < of_char y then - 1
      else if (of_char y :: nat) < of_char x then 1
      else byCodeUnits xs ys)"

section \<open>Dispatcher: a job that awaits its result\<close>

text \<open>
  An event that is neither a submission nor the arrival of a worker result: time passing,
  and the messages that settle nothing (a result arrives with \<open>RESULT\<close> or with the
  \<open>RESULT_CHUNKED_END\<close> that completes a chunked one).
\<close>

fun no_result :: "event \<Rightarrow> bool" where
  "no_result (Submit j) = False"
| "no_result (Advance t) = True"
| "no_result (Port READY) = True"
| "no_result (Port (PROGRESS tab status progress)) = True"
| "no_result (Port (RESULT err res)) = False"
| "no_result (Port (RESULT_CHUNKED_START mime multi n len)) = True"
| "no_result (Port (RESULT_CHUNK i c)) = True"
| "no_result (Port RESULT_CHUNKED_END) = False"

text \<open>
  Promise \<open>p\<close> awaits its result or its timeout: either its pair is in the slot, it is
  pending and a timer due at \<open>due\<close> is armed, or a timer has failed it and the slot is
  empty.
\<close>

definition awaiting :: "nat \<Rightarrow> nat \<Rightarrow> dispatcher \<Rightarrow> bool" where
  "awaiting p due s \<longleftrightarrow>
     p < length (promises s) \<and>
     (pendingTranscode s = Some p \<and> promises s ! p = Pending \<and> due \<in> fst ` set (timers s)
      \<or> pendingTranscode s = None \<and> (\<exists>msg. promises s ! p = Rejected (TimedOut msg)))"

section \<open>Helper lemmas\<close>

lemma substring_past_end:
  assumes "int (length s) \<le> a" and "int (length s) \<le> b"
  shows "substring s a b = []"
proof -
  have "min (max a 0) (int (length s)) = int (length s)"
    and "min (max b 0) (int (length s)) = int (length s)"
    using assms by linarith+
  then show ?thesis
    by (simp add: substring_def Let_def)
qed

lemma MAX_CHUNK_SIZE_pos: "0 < MAX_CHUNK_SIZE"
  by (simp add: MAX_CHUNK_SIZE_def)

lemma substring_nat:
  assumes "a \<le> b"
  shows "substring s (int a) (int b) = take (b - a) (drop a s)"
proof -
  let ?n = "length s"
  have m: "min (max (int a) 0) (int ?n) = int (min a ?n)"
    "min (max (int b) 0) (int ?n) = int (min b ?n)"
    by linarith+
  have o: "min (min a ?n) (min b ?n) = min a ?n" "max (min a ?n) (min b ?n) = min b ?n"
    using assms by linarith+
  have "substring s (int a) (int b) = take (min b ?n - min a ?n) (drop (min a ?n) s)"
  proof -
    have d: "nat (int x - int y) = x - y" for x y :: nat
      by linarith
    show ?thesis
      unfolding substring_def Let_def m
      by (simp add: o d flip: of_nat_min of_nat_max)
  qed
  also have "\<dots> = take (b - a) (drop a s)"
  proof (cases "a \<le> ?n")
    case True
    then show ?thesis by (cases "b \<le> ?n") (simp_all add: min_def)
  next
    case False
    then show ?thesis by (simp add: min_def)
  qed
  finally show ?thesis .
qed

lemma chunk_loop_map:
  "chunk_loop m d n i = map (\<lambda>k. (k, chunk_at m d k)) [i..<n]"
proof (induction m d n i rule: chunk_loop.induct)
  case (1 m d n i)
  show ?case
  proof (cases "i < n")
    case True
    then show ?thesis
      using 1 by (subst chunk_loop.simps) (simp add: upt_conv_Cons)
  next
    case False
    then show ?thesis by (subst chunk_loop.simps) simp
  qed
qed

lemma chunk_at_slice:
  "chunk_at m d i = take (min ((i + 1) * m) (length d) - i * m) (drop (i * m) d)"
proof (cases "i * m \<le> length d")
  case True
  then have "i * m \<le> min (i * m + m) (length d)" by simp
  from substring_nat[OF this, of d] show ?thesis
    unfolding chunk_at_def Let_def by (simp only: add_mult_distrib mult_1)
next
  case False
  then have e: "min (i * m + m) (length d) = length d" by simp
  have "int (length d) \<le> int (i * m)"
    using False by (simp only: of_nat_le_iff)
  then have "substring d (int (i * m)) (int (length d)) = []"
    by (intro substring_past_end) simp_all
  then show ?thesis using False e by (simp add: chunk_at_def Let_def)
qed

lemma chunk_at_take: "chunk_at m d i = take m (drop (i * m) d)"
  unfolding chunk_at_slice
  by (cases "(i + 1) * m \<le> length d") (simp_all add: min_def)

lemma concat_chunks_take:
  "concat (map (\<lambda>k. take m (drop (k * m) d)) [0..<n]) = take (n * m) d"
proof (induction n)
  case 0
  show ?case by simp
next
  case (Suc n)
  have "Suc n * m = n * m + m" by simp
  then have "take (Suc n * m) d = take (n * m) d @ take m (drop (n * m) d)"
    by (simp only: take_add)
  with Suc show ?case by simp
qed

lemma ceil_div_covers: "0 < m \<Longrightarrow> a \<le> ceil_div a m * m"
proof -
  assume m: "0 < m"
  have "a + m - 1 = (a + m - 1) div m * m + (a + m - 1) mod m" by simp
  moreover have "(a + m - 1) mod m < m" using m by simp
  ultimately have "a + m - 1 < (a + m - 1) div m * m + m" by linarith
  then show ?thesis using m by (simp add: ceil_div_def)
qed

lemma ceil_div_tight: "0 < m \<Longrightarrow> 0 < a \<Longrightarrow> (ceil_div a m - 1) * m < a"
proof -
  assume m: "0 < m" and a: "0 < a"
  define q where "q = (a + m - 1) div m"
  have "q * m \<le> a + m - 1" by (simp add: q_def)
  moreover have "(q - 1) * m = q * m - m" by (simp add: diff_mult_distrib)
  ultimately have "(q - 1) * m < a" using m a by linarith
  then show ?thesis by (simp add: ceil_div_def q_def)
qed

lemma foldl_array_set_in_order:
  "foldl (\<lambda>chunks (i, c). array_set chunks i c) (map Some pre)
         (map (\<lambda>k. (length pre + k, f (length pre + k))) [0..<n])
   = map Some (pre @ map (\<lambda>k. f (length pre + k)) [0..<n])"
proof (induction n arbitrary: pre)
  case 0
  show ?case by simp
next
  case (Suc n)
  show ?case
    using Suc[of pre]
    by (simp add: array_set_def)
qed

lemma join_empty_Some: "join_empty (map Some xs) = concat xs"
  by (simp add: join_empty_def comp_def)

lemma join_empty_Some_comp: "join_empty (map (Some \<circ> f) xs) = concat (map f xs)"
  by (simp add: join_empty_def comp_def)

lemma offscreen_run_append:
  "offscreen_run (xs @ ys) ci =
     (let (ci', js) = offscreen_run xs ci; (ci'', js') = offscreen_run ys ci' in (ci'', js @ js'))"
  by (induction xs arbitrary: ci) (simp_all add: split_beta Let_def)

lemma offscreen_run_chunks:
  "offscreen_run (map (\<lambda>(i, c). EXTRACT_ZIP_DATA_CHUNK i c) msgs) (Some ci) =
     (Some (ci\<lparr>ci_chunks := foldl (\<lambda>chunks (i, c). array_set chunks i c) (ci_chunks ci) msgs,
               ci_received := ci_received ci + length msgs\<rparr>), [])"
  by (induction msgs arbitrary: ci) (simp_all add: split_beta Let_def)

lemma MAX_RESPONSE_SIZE_eq: "MAX_RESPONSE_SIZE = MAX_CHUNK_SIZE"
  by (simp add: MAX_RESPONSE_SIZE_def MAX_CHUNK_SIZE_def)

lemma reassemble_chunker:
  assumes "0 < m"
  shows "reassemble (chunker m d) = d"
proof -
  let ?n = "ceil_div (length d) m"
  have c: "chunker m d = map (\<lambda>k. (k, chunk_at m d k)) [0..<?n]"
    by (simp add: chunker_def chunk_loop_map)
  have cover: "length d \<le> ?n * m"
    using assms by (rule ceil_div_covers)
  have cc: "concat (map (chunk_at m d) [0..<?n]) = d"
    using concat_chunks_take[of m d ?n] cover
    by (simp add: chunk_at_take[abs_def])
  have "reassemble (chunker m d) = concat (map (chunk_at m d) [0..<?n])"
    unfolding reassemble_def c
    using foldl_array_set_in_order[of "[]" "chunk_at m d" ?n]
    by (simp add: join_empty_Some_comp)
  with cc show ?thesis by simp
qed

lemma offscreen_run_post_zip:
  "snd (offscreen_run (post_zip d tab) ci) = [RunExtractZipFromData d tab]"
proof (cases "length d > MAX_CHUNK_SIZE")
  case False
  then show ?thesis by (simp add: post_zip_def)
next
  case True
  have r: "join_empty (foldl (\<lambda>chunks (i, c). array_set chunks i c) [] (chunker MAX_CHUNK_SIZE d)) = d"
    using reassemble_chunker[OF MAX_CHUNK_SIZE_pos, of d] by (simp add: reassemble_def)
  show ?thesis
    using True r
    by (simp add: post_zip_def Let_def offscreen_run_append offscreen_run_chunks chunker_def)
qed

lemma handleGetResultChunk_nat:
  assumes "rs rid = Some st"
  shows "handleGetResultChunk rid (int i) rs =
     Inr (\<lparr>chunk = chunk_at MAX_CHUNK_SIZE (stored_data st) i,
           isLast = (length (stored_data st) \<le> i * MAX_CHUNK_SIZE + MAX_CHUNK_SIZE)\<rparr>,
          if length (stored_data st) \<le> i * MAX_CHUNK_SIZE + MAX_CHUNK_SIZE
          then rs(rid := None) else rs)"
proof -
  let ?d = "stored_data st"
  let ?M = "MAX_CHUNK_SIZE"
  let ?e = "min (i * ?M + ?M) (length ?d)"
  have s: "int i * int ?M = int (i * ?M)" by simp
  have e: "int (i * ?M) + int ?M = int (i * ?M + ?M)" by simp
  have m: "min (int (i * ?M + ?M)) (int (length ?d)) = int ?e"
    by (simp only: of_nat_min)
  have il: "(int (length ?d) \<le> int ?e) = (length ?d \<le> i * ?M + ?M)"
    by (simp only: of_nat_le_iff) simp
  have c: "substring ?d (int (i * ?M)) (int ?e) = chunk_at ?M ?d i"
    by (simp only: chunk_at_def Let_def)
  have "handleGetResultChunk rid (int i) rs =
      Inr (\<lparr>chunk = substring ?d (int (i * ?M)) (int ?e), isLast = (int (length ?d) \<le> int ?e)\<rparr>,
           if int (length ?d) \<le> int ?e then rs(rid := None) else rs)"
    unfolding handleGetResultChunk_def Let_def s e assms
    by (simp only: option.case m)
  then show ?thesis
    by (simp only: il c)
qed

lemma pull_in_range:
  assumes "rs rid = Some st" and "0 < length (stored_data st)"
    and "i < ceil_div (length (stored_data st)) MAX_CHUNK_SIZE"
  shows "handleGetResultChunk rid (int i) rs =
     Inr (\<lparr>chunk = chunk_at MAX_CHUNK_SIZE (stored_data st) i,
           isLast = (i = ceil_div (length (stored_data st)) MAX_CHUNK_SIZE - 1)\<rparr>,
          if i = ceil_div (length (stored_data st)) MAX_CHUNK_SIZE - 1 then rs(rid := None) else rs)"
proof -
  let ?d = "stored_data st"
  let ?M = "MAX_CHUNK_SIZE"
  let ?n = "ceil_div (length ?d) ?M"
  have tight: "(?n - 1) * ?M < length ?d"
    using ceil_div_tight[OF MAX_CHUNK_SIZE_pos assms(2)] .
  have cover: "length ?d \<le> ?n * ?M"
    using ceil_div_covers[OF MAX_CHUNK_SIZE_pos] .
  have last: "(length ?d \<le> i * ?M + ?M) = (i = ?n - 1)"
  proof
    assume a: "length ?d \<le> i * ?M + ?M"
    show "i = ?n - 1"
    proof (rule ccontr)
      assume "i \<noteq> ?n - 1"
      with assms(3) have "i + 1 \<le> ?n - 1" by simp
      then have "(i + 1) * ?M \<le> (?n - 1) * ?M" by (rule mult_le_mono1)
      with tight a show False by simp
    qed
  next
    assume "i = ?n - 1"
    then have "Suc i = ?n" using assms(3) by simp
    then have "i * ?M + ?M = ?n * ?M"
      by (metis mult_Suc add.commute)
    with cover show "length ?d \<le> i * ?M + ?M" by simp
  qed
  show ?thesis
    using handleGetResultChunk_nat[of rs rid st i, OF assms(1)] by (simp only: last)
qed

lemma pull_loop_done: "pull_loop rid n n acc rs = Inr (acc, rs)"
  by (subst pull_loop.simps) simp

lemma pull_loop_step:
  "i < n \<Longrightarrow> handleGetResultChunk rid (int i) rs = Inr (resp, rs') \<Longrightarrow>
   pull_loop rid n i acc rs = pull_loop rid n (Suc i) (acc @ [chunk resp]) rs'"
  by (subst pull_loop.simps) simp

lemma pull_loop_fail:
  "i < n \<Longrightarrow> handleGetResultChunk rid (int i) rs = Inl e \<Longrightarrow>
   pull_loop rid n i acc rs = Inl e"
  by (subst pull_loop.simps) simp

lemma pull_loop_drain:
  assumes "rs rid = Some st" and "0 < length (stored_data st)"
    and "n = ceil_div (length (stored_data st)) MAX_CHUNK_SIZE"
  shows "i < n \<Longrightarrow> pull_loop rid n i acc rs =
     Inr (acc @ map (chunk_at MAX_CHUNK_SIZE (stored_data st)) [i..<n], rs(rid := None))"
proof (induction "n - i" arbitrary: i acc)
  case 0
  then show ?case by simp
next
  case (Suc k)
  show ?case
  proof (cases "i = n - 1")
    case True
    then have "Suc i = n" using Suc.prems by simp
    then have u: "[i..<n] = [i]" by (metis upt_rec Suc.prems upt_conv_Nil order_refl)
    have "handleGetResultChunk rid (int i) rs =
        Inr (\<lparr>chunk = chunk_at MAX_CHUNK_SIZE (stored_data st) i, isLast = True\<rparr>, rs(rid := None))"
      using pull_in_range[of rs rid st i, OF assms(1,2)] Suc.prems True assms(3) by simp
    from pull_loop_step[OF Suc.prems this] show ?thesis
      by (simp add: \<open>Suc i = n\<close> pull_loop_done u)
  next
    case False
    then have lt: "Suc i < n" using Suc.prems by simp
    have k: "k = n - Suc i" using Suc.hyps(2) by simp
    have u: "[i..<n] = i # [Suc i..<n]" using Suc.prems by (simp add: upt_conv_Cons)
    have "handleGetResultChunk rid (int i) rs =
        Inr (\<lparr>chunk = chunk_at MAX_CHUNK_SIZE (stored_data st) i, isLast = False\<rparr>, rs)"
      using pull_in_range[of rs rid st i, OF assms(1,2)] Suc.prems False assms(3) by simp
    from pull_loop_step[OF Suc.prems this] show ?thesis
      using Suc.hyps(1)[OF k lt, of "acc @ [chunk_at MAX_CHUNK_SIZE (stored_data st) i]"]
      by (simp add: u)
  qed
qed


lemma slots_empty: "slots cks {} = replicate (length cks) None"
  by (rule nth_equalityI) (simp_all add: slots_def)

lemma slots_all: "{0..<length cks} \<subseteq> S \<Longrightarrow> slots cks S = map Some cks"
  by (rule nth_equalityI) (auto simp: slots_def)

lemma array_set_slots:
  "i < length cks \<Longrightarrow> array_set (slots cks S) i (cks ! i) = slots cks (insert i S)"
proof -
  assume i: "i < length cks"
  have "(slots cks S)[i := Some (cks ! i)] = slots cks (insert i S)"
    using i by (intro nth_equalityI) (auto simp: slots_def nth_list_update)
  then show ?thesis using i by (simp add: array_set_def slots_def)
qed

lemma handleExtractZipChunk_fresh:
  "cs tid = None \<Longrightarrow>
   snd (handleExtractZipChunk tid i n c cs) =
   snd (handleExtractZipChunk tid i n c
     (cs(tid \<mapsto> \<lparr>cs_chunks = replicate n None, cs_totalChunks = n, cs_received = 0\<rparr>)))"
  by (simp add: handleExtractZipChunk_def Let_def)

lemma receive_chunks_slots:
  assumes "set p \<subseteq> {0..<length cks}"
    and "cs tid = Some \<lparr>cs_chunks = slots cks S, cs_totalChunks = n, cs_received = r\<rparr>"
  shows "receive_chunks tid m (map (\<lambda>i. (i, cks ! i)) p) cs =
     cs(tid \<mapsto> \<lparr>cs_chunks = slots cks (S \<union> set p), cs_totalChunks = n,
                  cs_received = r + length p\<rparr>)"
  using assms
proof (induction p arbitrary: cs S r)
  case Nil
  then show ?case by (simp add: fun_upd_idem)
next
  case (Cons i p)
  have i: "i < length cks" using Cons.prems(1) by simp
  let ?cs = "snd (handleExtractZipChunk tid i m (cks ! i) cs)"
  have st: "?cs tid = Some \<lparr>cs_chunks = slots cks (insert i S), cs_totalChunks = n,
                             cs_received = Suc r\<rparr>"
    using Cons.prems(2) i by (simp add: handleExtractZipChunk_def Let_def array_set_slots)
  have up: "?cs = cs(tid \<mapsto> \<lparr>cs_chunks = slots cks (insert i S), cs_totalChunks = n,
                             cs_received = Suc r\<rparr>)"
    using Cons.prems(2) i by (simp add: handleExtractZipChunk_def Let_def array_set_slots)
  have p: "set p \<subseteq> {0..<length cks}" using Cons.prems(1) by simp
  have "receive_chunks tid m (map (\<lambda>i. (i, cks ! i)) (i # p)) cs =
        receive_chunks tid m (map (\<lambda>i. (i, cks ! i)) p) ?cs"
    by simp
  also have "\<dots> = ?cs(tid \<mapsto> \<lparr>cs_chunks = slots cks (insert i S \<union> set p), cs_totalChunks = n,
                  cs_received = Suc r + length p\<rparr>)"
    by (rule Cons.IH[where cs = ?cs and S = "insert i S" and r = "Suc r", OF p st])
  also have "\<dots> = cs(tid \<mapsto> \<lparr>cs_chunks = slots cks (S \<union> set (i # p)), cs_totalChunks = n,
                  cs_received = r + length (i # p)\<rparr>)"
    unfolding up by simp
  finally show ?case .
qed

lemma receive_chunks_permutation:
  assumes "distinct p" and "set p = {0..<length cks}" and "cs tid = None" and "0 < length cks"
  shows "receive_chunks tid (length cks) (map (\<lambda>i. (i, cks ! i)) p) cs =
     cs(tid \<mapsto> \<lparr>cs_chunks = map Some cks, cs_totalChunks = length cks,
                  cs_received = length cks\<rparr>)"
proof -
  let ?n = "length cks"
  let ?fresh = "\<lparr>cs_chunks = replicate ?n None, cs_totalChunks = ?n, cs_received = 0\<rparr>"
  have len: "length p = ?n"
    using assms(1,2) by (metis distinct_card card_atLeastLessThan diff_zero)
  obtain i q where p: "p = i # q"
    using len assms(4) by (cases p) auto
  have q: "set p \<subseteq> {0..<?n}" using assms(2) by simp
  have f: "(cs(tid \<mapsto> ?fresh)) tid =
      Some \<lparr>cs_chunks = slots cks {}, cs_totalChunks = ?n, cs_received = 0\<rparr>"
    by (simp add: slots_empty)
  have "receive_chunks tid ?n (map (\<lambda>i. (i, cks ! i)) p) cs =
        receive_chunks tid ?n (map (\<lambda>i. (i, cks ! i)) p) (cs(tid \<mapsto> ?fresh))"
    using handleExtractZipChunk_fresh[of cs tid i ?n "cks ! i", OF assms(3)] by (simp add: p)
  also have "\<dots> = (cs(tid \<mapsto> ?fresh))(tid \<mapsto>
      \<lparr>cs_chunks = slots cks ({} \<union> set p), cs_totalChunks = ?n, cs_received = 0 + length p\<rparr>)"
    by (rule receive_chunks_slots[where cs = "cs(tid \<mapsto> ?fresh)" and S = "{}" and r = 0, OF q f])
  finally show ?thesis
    using assms(2) len by (simp add: slots_all)
qed

lemma MAX_MESSAGE_SIZE_pos: "0 < MAX_MESSAGE_SIZE"
  by (simp add: MAX_MESSAGE_SIZE_def)

lemma length_json_escape: "1 \<le> length (json_escape c)"
  by (simp add: json_escape_def Let_def)

lemma length_concat_json_escape: "length s \<le> length (concat (map json_escape s))"
proof (induction s)
  case Nil
  show ?case by simp
next
  case (Cons c s)
  then show ?case using length_json_escape[of c] by simp
qed

lemma length_JSON_quote: "length s + 2 \<le> length (JSON_quote s)"
  using length_concat_json_escape[of s] by (simp add: JSON_quote_def)

lemma length_JSON_video: "length (base64 v) < length (JSON_video v)"
  using length_JSON_quote[of "base64 v"] by (simp add: JSON_video_def)

lemma foldl_totalSize:
  "foldl (\<lambda>sum v. sum + length (base64 v)) a vs = a + sum_list (map (\<lambda>v. length (base64 v)) vs)"
  by (induction vs arbitrary: a) simp_all

lemma length_join_comma:
  "sum_list (map (\<lambda>v. length (base64 v)) vs) \<le> length (join_comma (map JSON_video vs))"
proof (induction vs rule: induct_list012)
  case 1
  show ?case by simp
next
  case (2 v)
  show ?case using length_JSON_video[of v] by simp
next
  case (3 v w vs)
  then show ?case using length_JSON_video[of v] by simp
qed

lemma totalSize_less_JSON: "totalSize (Multi vs) < length (JSON_stringify vs)"
  using length_join_comma[of vs] by (simp add: JSON_stringify_def foldl_totalSize)

lemma json_escape_plain:
  "32 \<le> (of_char c :: nat) \<Longrightarrow> c \<noteq> CHR 0x22 \<Longrightarrow> c \<noteq> CHR 0x5C \<Longrightarrow> json_escape c = [c]"
  by (cases c) (auto simp: json_escape_def Let_def)

lemma JSON_quote_replicate_A:
  "JSON_quote (replicate n CHR ''A'' @ s) = CHR 0x22 # replicate n CHR ''A'' @ concat (map json_escape s) @ [CHR 0x22]"
proof -
  have "json_escape CHR ''A'' = ''A''" by (simp add: json_escape_def)
  then have "concat (map json_escape (replicate n CHR ''A'')) = replicate n CHR ''A''"
    by (induction n) simp_all
  then show ?thesis by (simp add: JSON_quote_def)
qed


lemma chunk_loop_chunker: "chunk_loop m d (ceil_div (length d) m) 0 = chunker m d"
  by (simp add: chunker_def)

lemma orphaned_resolve: "orphaned a s \<Longrightarrow> p \<noteq> a \<Longrightarrow> orphaned a (resolve p v s)"
  by (simp add: orphaned_def resolve_def)

lemma orphaned_reject: "orphaned a s \<Longrightarrow> p \<noteq> a \<Longrightarrow> orphaned a (reject p e s)"
  by (simp add: orphaned_def reject_def)

lemma pendingTranscode_resolve [simp]: "pendingTranscode (resolve p v s) = pendingTranscode s"
  by (simp add: resolve_def)

lemma pendingTranscode_reject [simp]: "pendingTranscode (reject p e s) = pendingTranscode s"
  by (simp add: reject_def)

lemma orphaned_clear: "orphaned a s \<Longrightarrow> orphaned a (s\<lparr>pendingTranscode := None\<rparr>)"
  by (simp add: orphaned_def)

lemma orphaned_timer_callback: "orphaned a s \<Longrightarrow> orphaned a (timer_callback msg s)"
proof (cases "pendingTranscode s")
  case None
  then show "orphaned a s \<Longrightarrow> ?thesis" by (simp add: timer_callback_def)
next
  case (Some p)
  assume o: "orphaned a s"
  with Some have "p \<noteq> a" by (auto simp: orphaned_def)
  from orphaned_clear[OF orphaned_reject[OF o this]] Some show ?thesis
    by (simp add: timer_callback_def)
qed

lemma orphaned_callbacks:
  "orphaned a s \<Longrightarrow> orphaned a (foldl (\<lambda>s' (due, msg). timer_callback msg s') s ts)"
  by (induction ts arbitrary: s) (auto simp: orphaned_timer_callback)

lemma orphaned_advance: "orphaned a s \<Longrightarrow> orphaned a (advance t s)"
  unfolding advance_def by (rule orphaned_callbacks) (simp add: orphaned_def)

lemma orphaned_submit: "orphaned a s \<Longrightarrow> orphaned a (submit j s)"
  by (auto simp: orphaned_def submit_def nth_append)

lemma orphaned_port: "orphaned a s \<Longrightarrow> orphaned a (port_onMessage P m s)"
proof -
  assume o: "orphaned a s"
  have r: "orphaned a ((resolve p v s')\<lparr>pendingTranscode := None\<rparr>)"
    if "orphaned a s'" "pendingTranscode s' = Some p" for p v s'
  proof -
    from that have "p \<noteq> a" by (auto simp: orphaned_def)
    from orphaned_clear[OF orphaned_resolve[OF that(1) this]] show ?thesis .
  qed
  have j: "orphaned a ((reject p e s')\<lparr>pendingTranscode := None\<rparr>)"
    if "orphaned a s'" "pendingTranscode s' = Some p" for p e s'
  proof -
    from that have "p \<noteq> a" by (auto simp: orphaned_def)
    from orphaned_clear[OF orphaned_reject[OF that(1) this]] show ?thesis .
  qed
  have c: "orphaned a (s\<lparr>chunkedResult := x\<rparr>)" for x
    using o by (simp add: orphaned_def)
  have u: "orphaned a (s\<lparr>uncaught := x\<rparr>)" for x
    using o by (simp add: orphaned_def)
  show ?thesis
  proof (cases m)
    case READY
    then show ?thesis using o by (simp add: port_onMessage_def)
  next
    case (PROGRESS x1 x2 x3)
    then show ?thesis using o by (simp add: port_onMessage_def)
  next
    case (RESULT err res)
    then show ?thesis using o r[OF o] j[OF o]
      by (simp add: port_onMessage_def split: option.splits)
  next
    case (RESULT_CHUNKED_START x1 x2 x3 x4)
    then show ?thesis using c by (simp add: port_onMessage_def)
  next
    case (RESULT_CHUNK i ch)
    then show ?thesis using o c by (simp add: port_onMessage_def split: option.splits)
  next
    case RESULT_CHUNKED_END
    have "orphaned a ((resolve p v (s\<lparr>chunkedResult := None\<rparr>))\<lparr>pendingTranscode := None\<rparr>)"
      if "pendingTranscode s = Some p" for p v
      using r[OF c[of None], of p v] that by simp
    then show ?thesis using RESULT_CHUNKED_END o u
      by (simp add: port_onMessage_def Let_def split: option.splits sum.splits)
  qed
qed

lemma orphaned_step: "orphaned a s \<Longrightarrow> orphaned a (step P ev s)"
  by (cases ev) (simp_all add: orphaned_submit orphaned_port orphaned_advance)

lemma orphaned_run: "orphaned a s \<Longrightarrow> orphaned a (run P evs s)"
  unfolding run_def by (induction evs arbitrary: s) (simp_all add: orphaned_step)


lemma slot_ok_submit: "slot_ok (submit j s)"
  by (simp add: slot_ok_def submit_def)

lemma slot_ok_timer_callback: "slot_ok (timer_callback msg s)"
  by (simp add: slot_ok_def timer_callback_def split: option.splits)

lemma slot_ok_callbacks:
  "slot_ok s \<Longrightarrow> slot_ok (foldl (\<lambda>s' (due, msg). timer_callback msg s') s ts)"
  by (induction ts arbitrary: s) (auto simp: slot_ok_timer_callback)

lemma slot_ok_advance: "slot_ok s \<Longrightarrow> slot_ok (advance t s)"
  unfolding advance_def by (rule slot_ok_callbacks) (simp add: slot_ok_def split: option.splits)

lemma slot_ok_port: "slot_ok s \<Longrightarrow> slot_ok (port_onMessage P m s)"
  by (cases m)
     (auto simp: port_onMessage_def slot_ok_def Let_def split: option.splits sum.splits)

lemma slot_ok_step: "slot_ok s \<Longrightarrow> slot_ok (step P ev s)"
  by (cases ev) (simp_all add: slot_ok_submit slot_ok_port slot_ok_advance)

lemma slot_ok_run: "slot_ok s \<Longrightarrow> slot_ok (run P evs s)"
  unfolding run_def by (induction evs arbitrary: s) (simp_all add: slot_ok_step)

lemma result_settles_occupant:
  assumes "slot_ok s" and "pendingTranscode s = Some p"
  shows "promises (port_onMessage P (RESULT None (Some r)) s) ! p = Resolved (Some r)"
    and "pendingTranscode (port_onMessage P (RESULT None (Some r)) s) = None"
  using assms by (simp_all add: port_onMessage_def slot_ok_def resolve_def)

lemma run_Nil [simp]: "run P [] s = s"
  by (simp add: run_def)

lemma run_Cons [simp]: "run P (ev # evs) s = run P evs (step P ev s)"
  by (simp add: run_def)

lemma callbacks_empty_slot:
  "pendingTranscode s = None \<Longrightarrow> foldl (\<lambda>s' (due, msg). timer_callback msg s') s ts = s"
  by (induction ts arbitrary: s) (auto simp: timer_callback_def)

lemma callbacks_occupied:
  assumes "pendingTranscode s = Some n" and "n < length (promises s)" and "promises s ! n = Pending"
  shows "foldl (\<lambda>s' (due, msg). timer_callback msg s') s ((d, m) # ts) =
         s\<lparr>promises := (promises s)[n := Rejected (TimedOut m)], pendingTranscode := None\<rparr>"
proof -
  have "timer_callback m s =
      s\<lparr>promises := (promises s)[n := Rejected (TimedOut m)], pendingTranscode := None\<rparr>"
    using assms by (simp add: timer_callback_def reject_def)
  then show ?thesis
    by (simp add: callbacks_empty_slot)
qed

lemma advance_due:
  assumes "pendingTranscode s = Some n" and "n < length (promises s)" and "promises s ! n = Pending"
    and "(d, m) \<in> set (timers s)" and "d \<le> t"
  shows "(\<exists>msg. promises (advance t s) ! n = Rejected (TimedOut msg))
       \<and> pendingTranscode (advance t s) = None"
proof -
  let ?due = "sort_key fst (filter (\<lambda>(due, msg). due \<le> t) (timers s))"
  let ?s = "s\<lparr>timers := filter (\<lambda>(due, msg). \<not> due \<le> t) (timers s), clock := max (clock s) t\<rparr>"
  have "(d, m) \<in> set ?due" using assms(4,5) by simp
  then obtain d' m' ts where due: "?due = (d', m') # ts"
    by (cases ?due) auto
  have "advance t s = ?s\<lparr>promises := (promises ?s)[n := Rejected (TimedOut m')], pendingTranscode := None\<rparr>"
    unfolding advance_def due
    by (rule callbacks_occupied) (use assms(1-3) in simp_all)
  then show ?thesis using assms(2) by simp
qed

lemma port_late:
  assumes "pendingTranscode s = None"
  shows "promises (port_onMessage P m s) = promises s
       \<and> pendingTranscode (port_onMessage P m s) = None
       \<and> uncaught (port_onMessage P m s) = uncaught s"
  using assms by (cases m) (simp_all add: port_onMessage_def split: option.splits)

lemma ports_late:
  assumes "pendingTranscode s = None"
  shows "promises (foldl (\<lambda>s' m. port_onMessage P m s') s ms) = promises s
       \<and> pendingTranscode (foldl (\<lambda>s' m. port_onMessage P m s') s ms) = None
       \<and> uncaught (foldl (\<lambda>s' m. port_onMessage P m s') s ms) = uncaught s"
  using assms
proof (induction ms arbitrary: s)
  case Nil
  then show ?case by simp
next
  case (Cons m ms)
  from port_late[OF Cons.prems, of P m] Cons.IH[of "port_onMessage P m s"]
  show ?case by simp
qed

lemma btoa_bytes_shape:
  "btoa_bytes bs = map b64_char (enc_sextets bs) @ replicate (enc_pad bs) CHR ''=''"
  by (induction bs rule: enc_sextets.induct) (simp_all add: numeral_2_eq_2)

lemma enc_sextets_bound:
  "\<forall>b \<in> set bs. b < 256 \<Longrightarrow> \<forall>k \<in> set (enc_sextets bs). k < 64"
  by (induction bs rule: enc_sextets.induct) auto

lemma enc_pad_cases: "enc_pad bs = 0 \<or> enc_pad bs = 1 \<or> enc_pad bs = 2"
  by (induction bs rule: enc_pad.induct) simp_all

lemma enc_length: "(length (enc_sextets bs) + enc_pad bs) mod 4 = 0"
  by (induction bs rule: enc_sextets.induct) simp_all

lemma enc_pad_nonempty: "0 < enc_pad bs \<Longrightarrow> enc_sextets bs \<noteq> []"
  by (induction bs rule: enc_sextets.induct) simp_all

lemma byte_split:
  fixes a :: nat
  assumes "a < 256"
  shows "a div 16 < 16" and "a div 64 < 4" and "a div 16 mod 16 = a div 16"
    and "a div 64 mod 4 = a div 64"
  using assms by simp_all

lemma atob_enc_sextets:
  "\<forall>b \<in> set bs. b < 256 \<Longrightarrow> atob_sextets (enc_sextets bs) = bs"
proof (induction bs rule: enc_sextets.induct)
  case 1
  show ?case by simp
next
  case (2 a)
  then show ?case by simp
next
  case (3 a b)
  then have "b < 256" by simp
  from byte_split[OF this] show ?case by simp
next
  case (4 a b c rest)
  then have "b < 256" and "c < 256" and r: "atob_sextets (enc_sextets rest) = rest" by simp_all
  from byte_split[OF this(1)] byte_split[OF this(2)] r show ?case
    by (simp add: div_mult2_eq[symmetric])
qed

lemma b64_table:
  "list_all (\<lambda>k. b64_index (b64_char k) = Some k \<and> \<not> is_ascii_whitespace (b64_char k)
       \<and> b64_char k \<noteq> CHR ''='') [0..<64]"
  by code_simp


lemma b64_char_facts:
  assumes "k < 64"
  shows "b64_index (b64_char k) = Some k" and "\<not> is_ascii_whitespace (b64_char k)"
    and "b64_char k \<noteq> CHR ''=''"
  using b64_table assms by (simp_all add: list_all_iff)

lemma those_b64_index:
  "\<forall>k \<in> set sx. k < 64 \<Longrightarrow> those (map (b64_index \<circ> b64_char) sx) = Some sx"
  by (induction sx) (simp_all add: b64_char_facts)

lemma filter_whitespace_encoded:
  assumes "\<forall>k \<in> set sx. k < 64"
  shows "filter (\<lambda>c. \<not> is_ascii_whitespace c) (map b64_char sx @ replicate p CHR ''='') =
         map b64_char sx @ replicate p CHR ''=''"
proof -
  have "\<not> is_ascii_whitespace CHR ''=''" by (simp add: is_ascii_whitespace_def)
  then show ?thesis using assms by (auto simp: filter_id_conv b64_char_facts)
qed

lemma strip_padding_encoded:
  assumes "\<forall>k \<in> set sx. k < 64" and "p = 0 \<or> p = 1 \<or> p = 2"
    and "(length sx + p) mod 4 = 0" and "0 < p \<Longrightarrow> sx \<noteq> []"
  shows "strip_padding (map b64_char sx @ replicate p CHR ''='') = map b64_char sx"
proof -
  have nl: "last (map b64_char sx) \<noteq> CHR ''=''" if "sx \<noteq> []"
    using that assms(1) by (simp add: last_map b64_char_facts)
  consider "p = 0" | "p = 1" | "p = 2" using assms(2) by blast
  then show ?thesis
  proof cases
    case 1
    then show ?thesis using nl by (cases "sx = []") (simp_all add: strip_padding_def)
  next
    case 2
    then have "sx \<noteq> []" using assms(4) by simp
    then show ?thesis using 2 nl assms(3) by (simp add: strip_padding_def butlast_append)
  next
    case 3
    then have ne: "sx \<noteq> []" using assms(4) by simp
    have r: "replicate p CHR ''='' = ''==''" using 3 by (simp add: numeral_2_eq_2)
    show ?thesis unfolding r using ne nl assms(3) 3
      by (simp add: strip_padding_def butlast_append)
  qed
qed

lemma atob_btoa_bytes:
  assumes "\<forall>b \<in> set bs. b < 256"
  shows "atob (btoa_bytes bs) = Inr (map char_of bs)"
proof -
  let ?sx = "enc_sextets bs"
  let ?p = "enc_pad bs"
  have sx: "\<forall>k \<in> set ?sx. k < 64" using enc_sextets_bound[OF assms] .
  have f: "filter (\<lambda>c. \<not> is_ascii_whitespace c) (btoa_bytes bs) = btoa_bytes bs"
    unfolding btoa_bytes_shape by (rule filter_whitespace_encoded[OF sx])
  have st: "strip_padding (btoa_bytes bs) = map b64_char ?sx"
    unfolding btoa_bytes_shape
    by (rule strip_padding_encoded[OF sx enc_pad_cases enc_length enc_pad_nonempty])
  have l: "length ?sx mod 4 \<noteq> 1"
    using enc_length[of bs] enc_pad_cases[of bs] by presburger
  show ?thesis
    unfolding atob_def Let_def f st
    using l by (simp add: those_b64_index[OF sx] atob_enc_sextets[OF assms])
qed

lemma atob_btoa: "atob (btoa s) = Inr s"
proof -
  have "\<forall>b \<in> set (map of_char s :: nat list). b < 256" by simp
  from atob_btoa_bytes[OF this] show ?thesis
    by (simp add: btoa_def comp_def)
qed

lemma binary_loop_eq: "binary_loop data i acc = acc @ fromCharCode (drop i data)"
proof (induction data i acc rule: binary_loop.induct)
  case (1 data i acc)
  show ?case
  proof (cases "i < length data")
    case True
    have "subarray data i (min (i + 32768) (length data)) = take 32768 (drop i data)"
      using True by (simp add: subarray_def min_def)
    moreover have "drop (i + 32768) data = drop 32768 (drop i data)"
      by (simp add: add.commute)
    moreover have "fromCharCode (take 32768 (drop i data)) @ fromCharCode (drop 32768 (drop i data))
        = fromCharCode (drop i data)"
      unfolding fromCharCode_def map_append[symmetric] append_take_drop_id ..
    ultimately show ?thesis
      using True 1 by (subst binary_loop.simps) simp
  next
    case False
    then show ?thesis by (subst binary_loop.simps) (simp add: fromCharCode_def)
  qed
qed

lemma charCode_fromCharCode:
  "map (\<lambda>c. of_nat (of_char c)) (fromCharCode data) = data"
proof -
  have "(of_nat (of_char (char_of (unat b))) :: 8 word) = b" for b :: "8 word"
  proof -
    have "unat b < 256" using unsigned_less[of b, where ?'a = nat] by simp
    then have "(of_char (char_of (unat b)) :: nat) = unat b" by simp
    then show ?thesis by simp
  qed
  then show ?thesis by (simp add: fromCharCode_def comp_def)
qed

lemma set_insort_cmp [simp]: "set (insort_cmp c x ys) = insert x (set ys)"
  by (induction ys) auto

lemma length_insort_cmp [simp]: "length (insort_cmp c x ys) = Suc (length ys)"
  by (induction ys) auto

lemma sort_cmp_Nil [simp]: "sort_cmp c [] = []"
  by (simp add: sort_cmp_def)

lemma sort_cmp_Cons [simp]: "sort_cmp c (x # xs) = insort_cmp c x (sort_cmp c xs)"
  by (simp add: sort_cmp_def)

lemma set_sort_cmp [simp]: "set (sort_cmp c xs) = set xs"
  by (induction xs) simp_all

lemma length_sort_cmp [simp]: "length (sort_cmp c xs) = length xs"
  by (induction xs) simp_all

lemma distinct_insort_cmp: "distinct (insort_cmp c x ys) = (x \<notin> set ys \<and> distinct ys)"
  by (induction ys) auto

lemma distinct_sort_cmp: "distinct xs \<Longrightarrow> distinct (sort_cmp c xs)"
  by (induction xs) (simp_all add: distinct_insort_cmp)

lemma sorted_insort_cmp:
  assumes tot: "\<And>a b. a \<in> S \<Longrightarrow> b \<in> S \<Longrightarrow> c a b \<le> 0 \<or> c b a \<le> 0"
    and tr: "\<And>a b d. a \<in> S \<Longrightarrow> b \<in> S \<Longrightarrow> d \<in> S \<Longrightarrow> c a b \<le> 0 \<Longrightarrow> c b d \<le> 0 \<Longrightarrow> c a d \<le> 0"
    and x: "x \<in> S"
  shows "set ys \<subseteq> S \<Longrightarrow> sorted_wrt (\<lambda>a b. c a b \<le> 0) ys \<Longrightarrow>
         sorted_wrt (\<lambda>a b. c a b \<le> 0) (insort_cmp c x ys)"
proof (induction ys)
  case Nil
  show ?case by simp
next
  case (Cons y ys)
  have y: "y \<in> S" and ys: "set ys \<subseteq> S" using Cons.prems(1) by simp_all
  have sy: "\<forall>z \<in> set ys. c y z \<le> 0" and so: "sorted_wrt (\<lambda>a b. c a b \<le> 0) ys"
    using Cons.prems(2) by simp_all
  show ?case
  proof (cases "c x y \<le> 0")
    case True
    have "c x z \<le> 0" if "z \<in> set ys" for z
    proof -
      have "z \<in> S" using that ys by blast
      moreover have "c y z \<le> 0" using sy that by blast
      ultimately show ?thesis using tr[OF x y _ True] by blast
    qed
    then show ?thesis using True sy so by simp
  next
    case False
    then have yx: "c y x \<le> 0" using tot[OF x y] by simp
    have "sorted_wrt (\<lambda>a b. c a b \<le> 0) (insort_cmp c x ys)"
      by (rule Cons.IH[OF ys so])
    moreover have "\<forall>z \<in> set (insort_cmp c x ys). c y z \<le> 0"
      using yx sy by simp
    ultimately show ?thesis using False by simp
  qed
qed

lemma sorted_sort_cmp:
  assumes tot: "\<And>a b. a \<in> S \<Longrightarrow> b \<in> S \<Longrightarrow> c a b \<le> 0 \<or> c b a \<le> 0"
    and tr: "\<And>a b d. a \<in> S \<Longrightarrow> b \<in> S \<Longrightarrow> d \<in> S \<Longrightarrow> c a b \<le> 0 \<Longrightarrow> c b d \<le> 0 \<Longrightarrow> c a d \<le> 0"
  shows "set xs \<subseteq> S \<Longrightarrow> sorted_wrt (\<lambda>a b. c a b \<le> 0) (sort_cmp c xs)"
proof (induction xs)
  case Nil
  show ?case by simp
next
  case (Cons x xs)
  have x: "x \<in> S" and xs: "set xs \<subseteq> S" using Cons.prems by simp_all
  have "set (sort_cmp c xs) \<subseteq> S" using xs by simp
  from sorted_insort_cmp[of S c x, OF tot tr x this Cons.IH[OF xs]]
  show ?case by simp
qed

lemma sorted_wrt_unique:
  assumes "sorted_wrt le xs" and "sorted_wrt le ys" and "set xs = set ys"
    and "distinct xs" and "distinct ys"
    and "\<forall>a \<in> set xs. \<forall>b \<in> set xs. le a b \<and> le b a \<longrightarrow> a = b"
  shows "xs = ys"
  using assms
proof (induction xs arbitrary: ys)
  case Nil
  then show ?case by simp
next
  case (Cons x xs)
  then obtain y ys' where ys: "ys = y # ys'" by (cases ys) auto
  have xy: "x = y"
  proof (rule ccontr)
    assume ne: "x \<noteq> y"
    have "x \<in> set ys'" using Cons.prems(3) ne ys by auto
    then have 1: "le y x" using Cons.prems(2) ys by simp
    have "y \<in> set xs" using Cons.prems(3) ne ys by auto
    then have 2: "le x y" using Cons.prems(1) by simp
    have m: "x \<in> set (x # xs)" "y \<in> set (x # xs)" using \<open>y \<in> set xs\<close> by simp_all
    from Cons.prems(6)[rule_format, OF m] 1 2 have "x = y" by simp
    with ne show False by simp
  qed
  have st: "set xs = set ys'"
    using Cons.prems(3,4,5) ys xy by auto
  have "xs = ys'"
    using Cons.IH[of ys'] Cons.prems ys st by simp
  with xy ys show ?case by simp
qed

lemma process_videos_names:
  "process_videos ff i xs = Inr vs \<Longrightarrow> map name vs = map fst xs"
proof (induction xs arbitrary: i vs)
  case Nil
  then show ?case by simp
next
  case (Cons p xs)
  obtain n f where p: "p = (n, f)" by (cases p)
  show ?case
    using Cons.prems Cons.IH
    by (auto simp: p Let_def split: sum.splits if_splits)
qed

lemma process_videos_succeeds:
  assumes "\<forall>(fileName, file) \<in> set xs.
        \<exists>videoData. content file = Inr videoData \<and>
          (toLowerCase (split_pop fileName) \<notin> set NATIVE_FORMATS \<longrightarrow>
             (\<forall>i. \<exists>data. ff i (toLowerCase (split_pop fileName)) videoData = Inr data))"
  shows "\<exists>vs. process_videos ff i xs = Inr vs"
  using assms
proof (induction xs arbitrary: i)
  case Nil
  show ?case by simp
next
  case (Cons p xs)
  obtain n f where p: "p = (n, f)" by (cases p)
  from Cons.prems p obtain videoData where c: "content f = Inr videoData"
    and e: "toLowerCase (split_pop n) \<notin> set NATIVE_FORMATS \<longrightarrow>
             (\<forall>i. \<exists>data. ff i (toLowerCase (split_pop n)) videoData = Inr data)"
    by auto
  from Cons.prems have "\<exists>vs. process_videos ff (Suc i) xs = Inr vs"
    by (intro Cons.IH) simp
  then obtain vs where r: "process_videos ff (Suc i) xs = Inr vs" ..
  show ?case
  proof (cases "toLowerCase (split_pop n) \<in> set NATIVE_FORMATS")
    case True
    then show ?thesis using c r by (simp add: p Let_def)
  next
    case False
    with e obtain data where "ff i (toLowerCase (split_pop n)) videoData = Inr data" by blast
    then show ?thesis using False c r by (simp add: p Let_def)
  qed
qed


lemma sorted_wrt_map_fst:
  "sorted_wrt (\<lambda>a b. c a b \<le> (0::int)) (map fst xs) = sorted_wrt (\<lambda>a b. c (fst a) (fst b) \<le> 0) xs"
  by (simp add: sorted_wrt_map)

lemma length_process_videos:
  "process_videos ff i xs = Inr vs \<Longrightarrow> length vs = length xs"
  using process_videos_names[of ff i xs vs] by (metis length_map)

lemma extract_from_zip_shape:
  assumes "extract_from_zip cmp ff files = Inr r"
  shows "case r of
           Single b m \<Rightarrow> length (video_entries files) = 1
         | Multi vs \<Rightarrow> 2 \<le> length (video_entries files)
             \<and> map name vs = map fst (sort_cmp (\<lambda>a b. cmp (fst a) (fst b)) (video_entries files))"
proof -
  let ?sorted = "sort_cmp (\<lambda>a b. cmp (fst a) (fst b)) (video_entries files)"
  have ne: "length (video_entries files) \<noteq> 0"
    using assms by (auto simp: extract_from_zip_def Let_def)
  then obtain results where p: "process_videos ff 0 ?sorted = Inr results"
    and r: "r = (if length results = 1 then Single (base64 (results ! 0)) (mimeType (results ! 0))
                 else Multi results)"
    using assms by (auto simp: extract_from_zip_def Let_def split: sum.splits if_splits)
  have l: "length results = length (video_entries files)"
    using length_process_videos[OF p] by simp
  have n: "map name results = map fst ?sorted"
    by (rule process_videos_names[OF p])
  show ?thesis
  proof (cases "length results = 1")
    case True
    then show ?thesis using r l by simp
  next
    case False
    then have "2 \<le> length (video_entries files)" using ne l
      by (cases "video_entries files") (auto simp: Suc_le_eq numeral_2_eq_2)
    then show ?thesis using False r n by simp
  qed
qed

lemma extract_from_zip_succeeds:
  assumes "converts ff files" and "video_entries files \<noteq> []"
  shows "\<exists>r. extract_from_zip cmp ff files = Inr r"
proof -
  let ?sorted = "sort_cmp (\<lambda>a b. cmp (fst a) (fst b)) (video_entries files)"
  have "\<exists>vs. process_videos ff 0 ?sorted = Inr vs"
    by (rule process_videos_succeeds) (use assms(1) in \<open>simp add: converts_def\<close>)
  then obtain vs where "process_videos ff 0 ?sorted = Inr vs" ..
  then show ?thesis using assms(2)
    by (simp add: extract_from_zip_def Let_def)
qed

lemma extract_from_zip_multi:
  assumes "converts ff files" and "2 \<le> length (video_entries files)"
  shows "\<exists>vs. extract_from_zip cmp ff files = Inr (Multi vs)
      \<and> map name vs = map fst (sort_cmp (\<lambda>a b. cmp (fst a) (fst b)) (video_entries files))"
proof -
  have "video_entries files \<noteq> []" using assms(2) by auto
  from extract_from_zip_succeeds[OF assms(1) this, of cmp]
  obtain r where r: "extract_from_zip cmp ff files = Inr r" ..
  from extract_from_zip_shape[OF r] assms(2) r show ?thesis
    by (cases r) simp_all
qed

lemma extract_from_zip_single:
  assumes "converts ff files" and "length (video_entries files) = 1"
  shows "\<exists>v. process_videos ff 0 (video_entries files) = Inr [v]
      \<and> extract_from_zip cmp ff files = Inr (Single (base64 v) (mimeType v))"
proof -
  obtain p where ve: "video_entries files = [p]"
    using assms(2) by (cases "video_entries files") simp_all
  have s: "sort_cmp (\<lambda>a b. cmp (fst a) (fst b)) (video_entries files) = video_entries files"
    by (simp add: ve)
  have "\<exists>vs. process_videos ff 0 (video_entries files) = Inr vs"
    by (rule process_videos_succeeds) (use assms(1) in \<open>simp add: converts_def\<close>)
  then obtain vs where p: "process_videos ff 0 (video_entries files) = Inr vs" ..
  from length_process_videos[OF p] assms(2) obtain v where vs: "vs = [v]"
    by (cases vs) simp_all
  show ?thesis
    using p vs s ve by (simp add: extract_from_zip_def Let_def)
qed

lemma video_entries_reordered:
  assumes "set files' = set files" and "distinct (map fst files)" and "distinct (map fst files')"
  shows "set (video_entries files') = set (video_entries files)"
    and "distinct (video_entries files)" and "distinct (video_entries files')"
  using assms by (simp_all add: video_entries_def distinct_map)

lemma sort_reordered:
  assumes tot: "\<And>a b. a \<in> N \<Longrightarrow> b \<in> N \<Longrightarrow> cmp a b \<le> 0 \<or> cmp b a \<le> 0"
    and tr: "\<And>a b d. a \<in> N \<Longrightarrow> b \<in> N \<Longrightarrow> d \<in> N \<Longrightarrow> cmp a b \<le> 0 \<Longrightarrow> cmp b d \<le> 0 \<Longrightarrow> cmp a d \<le> 0"
    and anti: "\<And>a b. a \<in> N \<Longrightarrow> b \<in> N \<Longrightarrow> cmp a b \<le> 0 \<Longrightarrow> cmp b a \<le> 0 \<Longrightarrow> a = b"
    and N: "N = fst ` set xs"
    and "set ys = set xs" and "distinct (map fst xs)" and "distinct ys"
  shows "sort_cmp (\<lambda>a b. cmp (fst a) (fst b)) ys = sort_cmp (\<lambda>a b. cmp (fst a) (fst b)) xs"
proof (rule sorted_wrt_unique[where le = "\<lambda>a b. cmp (fst a) (fst b) \<le> 0"])
  let ?c = "\<lambda>a b. cmp (fst a) (fst b)"
  have t: "?c a b \<le> 0 \<or> ?c b a \<le> 0" if "a \<in> set xs" "b \<in> set xs" for a b
    using that tot N by blast
  have r: "?c a d \<le> 0" if "a \<in> set xs" "b \<in> set xs" "d \<in> set xs" "?c a b \<le> 0" "?c b d \<le> 0" for a b d
    using tr[of "fst a" "fst b" "fst d"] that N by blast
  show "sorted_wrt (\<lambda>a b. ?c a b \<le> 0) (sort_cmp ?c ys)"
    by (rule sorted_sort_cmp[where S = "set xs"]) (use t r assms(5) in blast)+
  show "sorted_wrt (\<lambda>a b. ?c a b \<le> 0) (sort_cmp ?c xs)"
    by (rule sorted_sort_cmp[where S = "set xs"]) (use t r in blast)+
  show "set (sort_cmp ?c ys) = set (sort_cmp ?c xs)" using assms(5) by simp
  have dx: "distinct xs" using assms(6) by (simp add: distinct_map)
  show "distinct (sort_cmp ?c ys)" using assms(7) by (rule distinct_sort_cmp)
  show "distinct (sort_cmp ?c xs)" using dx by (rule distinct_sort_cmp)
  have inj: "inj_on fst (set xs)" using assms(6) by (simp add: distinct_map)
  show "\<forall>a \<in> set (sort_cmp ?c ys). \<forall>b \<in> set (sort_cmp ?c ys). ?c a b \<le> 0 \<and> ?c b a \<le> 0 \<longrightarrow> a = b"
  proof (intro ballI impI)
    fix a b
    assume a: "a \<in> set (sort_cmp ?c ys)" and b: "b \<in> set (sort_cmp ?c ys)"
      and le: "?c a b \<le> 0 \<and> ?c b a \<le> 0"
    from a b assms(5) have ab: "a \<in> set xs" "b \<in> set xs" by simp_all
    then have "fst a \<in> N" "fst b \<in> N" using N by simp_all
    from anti[OF this] le have "fst a = fst b" by simp
    with inj ab show "a = b" by (simp add: inj_on_def)
  qed
qed


lemma base64ToBytes_uint8ToBase64: "base64ToBytes (uint8ToBase64 bytes) = Inr bytes"
  by (simp add: base64ToBytes_def uint8ToBase64_def atob_btoa binary_loop_eq charCode_fromCharCode)

lemma byCodeUnits_flip: "byCodeUnits b a = - byCodeUnits a b"
  by (induction a b rule: byCodeUnits.induct) auto

lemma byCodeUnits_total: "byCodeUnits a b \<le> 0 \<or> byCodeUnits b a \<le> 0"
  using byCodeUnits_flip[of b a] by linarith

lemma byCodeUnits_eq: "byCodeUnits a b \<le> 0 \<Longrightarrow> byCodeUnits b a \<le> 0 \<Longrightarrow> a = b"
proof (induction a b rule: byCodeUnits.induct)
  case (4 x xs y ys)
  show ?case
  proof (cases "(of_char x :: nat) = of_char y")
    case True
    then have "x = y" by simp
    with 4 True show ?thesis by simp
  next
    case False
    with 4 show ?thesis by (auto split: if_splits)
  qed
qed simp_all

lemma byCodeUnits_trans:
  "byCodeUnits a b \<le> 0 \<Longrightarrow> byCodeUnits b d \<le> 0 \<Longrightarrow> byCodeUnits a d \<le> 0"
proof (induction a arbitrary: b d)
  case Nil
  then show ?case by (cases d) simp_all
next
  case (Cons x xs)
  then obtain y ys where b: "b = y # ys" by (cases b) auto
  with Cons.prems obtain z zs where d: "d = z # zs" by (cases d) auto
  show ?case
    using Cons.prems Cons.IH[of ys zs] unfolding b d
    by (auto split: if_splits)
qed

lemma awaiting_submit: "awaiting (length (promises s)) (clock s + timeout_ms j) (submit j s)"
  by (simp add: awaiting_def submit_def)

lemma advance_empty_slot:
  assumes "pendingTranscode s = None"
  shows "promises (advance t s) = promises s" and "pendingTranscode (advance t s) = None"
  using assms by (simp_all add: advance_def callbacks_empty_slot)

lemma advance_nothing_due:
  assumes "filter (\<lambda>(due, msg). due \<le> t) (timers s) = []"
  shows "promises (advance t s) = promises s"
    and "pendingTranscode (advance t s) = pendingTranscode s"
    and "timers (advance t s) = timers s"
proof -
  have "filter (\<lambda>(due, msg). \<not> due \<le> t) (timers s) = timers s"
    using assms by (auto simp: filter_empty_conv filter_id_conv)
  then show "promises (advance t s) = promises s"
    and "pendingTranscode (advance t s) = pendingTranscode s"
    and "timers (advance t s) = timers s"
    using assms by (simp_all add: advance_def)
qed

lemma length_promises_advance_due:
  assumes "pendingTranscode s = Some n" and "n < length (promises s)" and "promises s ! n = Pending"
    and "(d, m) \<in> set (timers s)" and "d \<le> t"
  shows "length (promises (advance t s)) = length (promises s)"
proof -
  let ?due = "sort_key fst (filter (\<lambda>(due, msg). due \<le> t) (timers s))"
  let ?s = "s\<lparr>timers := filter (\<lambda>(due, msg). \<not> due \<le> t) (timers s), clock := max (clock s) t\<rparr>"
  have "(d, m) \<in> set ?due" using assms(4,5) by simp
  then obtain d' m' ts where due: "?due = (d', m') # ts"
    by (cases ?due) auto
  have "advance t s = ?s\<lparr>promises := (promises ?s)[n := Rejected (TimedOut m')], pendingTranscode := None\<rparr>"
    unfolding advance_def due
    by (rule callbacks_occupied) (use assms(1-3) in simp_all)
  then show ?thesis by simp
qed

lemma awaiting_deadline:
  assumes "awaiting p due s" and "due \<le> t"
  shows "(\<exists>msg. promises (advance t s) ! p = Rejected (TimedOut msg))
       \<and> pendingTranscode (advance t s) = None"
proof (cases "pendingTranscode s")
  case None
  then show ?thesis using assms(1) by (simp add: awaiting_def advance_empty_slot)
next
  case (Some q)
  with assms(1) have q: "pendingTranscode s = Some p" "p < length (promises s)"
    "promises s ! p = Pending" and "due \<in> fst ` set (timers s)"
    by (simp_all add: awaiting_def)
  then obtain m where "(due, m) \<in> set (timers s)" by auto
  from advance_due[OF q this assms(2)] show ?thesis .
qed

lemma awaiting_advance:
  assumes "awaiting p due s"
  shows "awaiting p due (advance t s)"
proof (cases "pendingTranscode s")
  case None
  then show ?thesis using assms by (simp add: awaiting_def advance_empty_slot)
next
  case (Some q)
  with assms have q: "pendingTranscode s = Some p" "p < length (promises s)"
    "promises s ! p = Pending" and d: "due \<in> fst ` set (timers s)"
    by (simp_all add: awaiting_def)
  show ?thesis
  proof (cases "filter (\<lambda>(due, msg). due \<le> t) (timers s) = []")
    case True
    from advance_nothing_due[OF True] q d show ?thesis by (simp add: awaiting_def)
  next
    case False
    then obtain d' m' where dm: "(d', m') \<in> set (timers s)" "d' \<le> t"
      by (auto simp: filter_empty_conv)
    from advance_due[OF q dm] length_promises_advance_due[OF q dm] q(2)
    show ?thesis by (simp add: awaiting_def)
  qed
qed

lemma awaiting_port:
  assumes "no_result (Port m)" and "awaiting p due s"
  shows "awaiting p due (port_onMessage P m s)"
  using assms by (cases m) (auto simp: port_onMessage_def awaiting_def split: option.splits)

lemma awaiting_step: "no_result ev \<Longrightarrow> awaiting p due s \<Longrightarrow> awaiting p due (step P ev s)"
  by (cases ev) (simp_all add: awaiting_port awaiting_advance)

lemma awaiting_run: "list_all no_result evs \<Longrightarrow> awaiting p due s \<Longrightarrow> awaiting p due (run P evs s)"
  by (induction evs arbitrary: s) (simp_all add: awaiting_step)

lemma timeout_by_deadline:
  assumes "list_all no_result evs" and "clock s + timeout_ms j \<le> t"
  shows "(\<exists>msg. promises (advance t (run P evs (submit j s))) ! length (promises s)
              = Rejected (TimedOut msg))
       \<and> pendingTranscode (advance t (run P evs (submit j s))) = None"
  by (rule awaiting_deadline[OF awaiting_run[OF assms(1) awaiting_submit] assms(2)])


lemma advance_own_timer_before:
  assumes "\<forall>(d, m) \<in> set (timers s). clock s + timeout_ms j < d"
    and "t < clock s + timeout_ms j"
  shows "promises (advance t (submit j s)) ! length (promises s) = Pending"
    and "pendingTranscode (advance t (submit j s)) = Some (length (promises s))"
proof -
  have "filter (\<lambda>(due, msg). due \<le> t) (timers (submit j s)) = []"
    using assms by (auto simp: submit_def filter_empty_conv)
  from advance_nothing_due[OF this]
  show "promises (advance t (submit j s)) ! length (promises s) = Pending"
    and "pendingTranscode (advance t (submit j s)) = Some (length (promises s))"
    by (simp_all add: submit_def)
qed

lemma advance_own_timer_after:
  assumes "\<forall>(d, m) \<in> set (timers s). clock s + timeout_ms j < d"
    and "clock s + timeout_ms j \<le> t"
  shows "promises (advance t (submit j s)) ! length (promises s)
           = Rejected (TimedOut (timeout_message j))"
    and "pendingTranscode (advance t (submit j s)) = None"
proof -
  let ?due = "clock s + timeout_ms j"
  let ?own = "(?due, timeout_message j)"
  let ?s1 = "submit j s"
  let ?D = "filter (\<lambda>(due, msg). due \<le> t) (timers ?s1)"
  let ?s = "?s1\<lparr>timers := filter (\<lambda>(due, msg). \<not> due \<le> t) (timers ?s1), clock := max (clock ?s1) t\<rparr>"
  have own: "?own \<in> set (sort_key fst ?D)"
    using assms(2) by (simp add: submit_def)
  then obtain x xs where sx: "sort_key fst ?D = x # xs"
    by (cases "sort_key fst ?D") auto
  have "sorted (map fst (sort_key fst ?D))" by (rule sorted_sort_key)
  then have le: "fst x \<le> ?due"
    using own unfolding sx by auto
  have "x \<in> set (timers ?s1)"
    using sx by (metis filter_is_subset list.set_intros(1) set_sort subsetD)
  then have "x = ?own \<or> x \<in> set (timers s)" by (auto simp: submit_def)
  then have x: "x = ?own"
  proof
    assume "x \<in> set (timers s)"
    then have "?due < fst x" using assms(1) by (cases x) auto
    with le show ?thesis by simp
  qed simp
  have "advance t ?s1 =
      ?s\<lparr>promises := (promises ?s)[length (promises s) := Rejected (TimedOut (timeout_message j))],
         pendingTranscode := None\<rparr>"
    unfolding advance_def sx x
    by (rule callbacks_occupied) (simp_all add: submit_def)
  then show "promises (advance t ?s1) ! length (promises s) = Rejected (TimedOut (timeout_message j))"
    and "pendingTranscode (advance t ?s1) = None"
    by (simp_all add: submit_def)
qed

section \<open>Claims\<close>

text \<open>
  C1, as amended. When job B is submitted while job A is pending, B's pair overwrites the
  slot. Messages from the worker name no job: a result that arrives while B's pair is in
  the slot resolves B's caller, whichever run produced it, and clears the slot. From the
  overwrite on, no event settles A's caller: results and timers alike act on the pair that
  is in the slot, and A's pair never is again.
\<close>

theorem C1_single_slot_handoff_amended:
  assumes "pendingTranscode s = Some a" and "a < length (promises s)"
    and "promises s ! a = Pending"
  shows "pendingTranscode (submit b s) = Some (length (promises s))
    \<and> promises (submit b s) ! length (promises s) = Pending
    \<and> (\<forall>evs. pendingTranscode (run JSON_parse evs (submit b s)) = Some (length (promises s)) \<longrightarrow>
          promises (port_onMessage JSON_parse (RESULT None (Some r)) (run JSON_parse evs (submit b s)))
            ! length (promises s) = Resolved (Some r)
          \<and> pendingTranscode
              (port_onMessage JSON_parse (RESULT None (Some r)) (run JSON_parse evs (submit b s))) = None)
    \<and> (\<forall>evs. promises (run JSON_parse evs (submit b s)) ! a = Pending)"
proof -
  let ?b = "length (promises s)"
  have 1: "pendingTranscode (submit b s) = Some ?b"
    by (simp add: submit_def)
  have 2: "promises (submit b s) ! ?b = Pending"
    by (simp add: submit_def)
  have 3: "\<forall>evs. pendingTranscode (run JSON_parse evs (submit b s)) = Some ?b \<longrightarrow>
          promises (port_onMessage JSON_parse (RESULT None (Some r)) (run JSON_parse evs (submit b s)))
            ! ?b = Resolved (Some r)
          \<and> pendingTranscode
              (port_onMessage JSON_parse (RESULT None (Some r)) (run JSON_parse evs (submit b s))) = None"
    using result_settles_occupant[OF slot_ok_run[OF slot_ok_submit]] by blast
  have "orphaned a (submit b s)"
    using assms by (simp add: orphaned_def submit_def nth_append)
  then have 4: "\<forall>evs. promises (run JSON_parse evs (submit b s)) ! a = Pending"
    using orphaned_run[of a "submit b s" JSON_parse] by (simp add: orphaned_def)
  from 1 2 3 4 show ?thesis by blast
qed

theorem C1_witness:
  "pendingTranscode (submit (JobTranscode ''b.avi'' 1) (submit (JobTranscode ''a.avi'' 1) initial)) = Some 1
   \<and> promises (port_onMessage (\<lambda>x. Inl JsonSyntaxError) (RESULT None (Some (Single ''QUJD'' ''video/mp4'')))
        (submit (JobTranscode ''b.avi'' 1) (submit (JobTranscode ''a.avi'' 1) initial))) ! 1
       = Resolved (Some (Single ''QUJD'' ''video/mp4''))
   \<and> promises (run (\<lambda>x. Inl JsonSyntaxError)
        [Port (RESULT None (Some (Single ''QUJD'' ''video/mp4''))), Advance 600000]
        (submit (JobTranscode ''b.avi'' 1) (submit (JobTranscode ''a.avi'' 1) initial))) ! 0 = Pending"
proof -
  let ?s = "submit (JobTranscode ''a.avi'' 1) initial"
  have h: "pendingTranscode ?s = Some 0" "0 < length (promises ?s)" "promises ?s ! 0 = Pending"
    by (simp_all add: submit_def initial_def)
  have l: "length (promises ?s) = 1" by (simp add: submit_def initial_def)
  note t = C1_single_slot_handoff_amended[OF h, of "JobTranscode ''b.avi'' 1" "\<lambda>x. Inl JsonSyntaxError"
      "Single ''QUJD'' ''video/mp4''", unfolded l]
  from t have a: "pendingTranscode (submit (JobTranscode ''b.avi'' 1) ?s) = Some 1" by blast
  from t have "pendingTranscode (run (\<lambda>x. Inl JsonSyntaxError) [] (submit (JobTranscode ''b.avi'' 1) ?s)) = Some 1 \<longrightarrow>
      promises (port_onMessage (\<lambda>x. Inl JsonSyntaxError) (RESULT None (Some (Single ''QUJD'' ''video/mp4'')))
        (run (\<lambda>x. Inl JsonSyntaxError) [] (submit (JobTranscode ''b.avi'' 1) ?s))) ! 1
       = Resolved (Some (Single ''QUJD'' ''video/mp4''))"
    by blast
  with a have b: "promises (port_onMessage (\<lambda>x. Inl JsonSyntaxError) (RESULT None (Some (Single ''QUJD'' ''video/mp4'')))
        (submit (JobTranscode ''b.avi'' 1) ?s)) ! 1 = Resolved (Some (Single ''QUJD'' ''video/mp4''))"
    by simp
  from t have c: "promises (run (\<lambda>x. Inl JsonSyntaxError)
        [Port (RESULT None (Some (Single ''QUJD'' ''video/mp4''))), Advance 600000]
        (submit (JobTranscode ''b.avi'' 1) ?s)) ! 0 = Pending"
    by blast
  from a b c show ?thesis by blast
qed

text \<open>
  C1 as stated fails. A is submitted, then B; the worker, which was sent A's job first,
  finishes A's run and posts its result with \<open>sendResult\<close>: B's caller is resolved with
  it, and A's caller stays pending. And when A is submitted at time 0 and B one minute
  later, A's timer fails B at minute five, with A's message, one minute before B's own
  deadline, and A's caller stays pending.
\<close>

theorem C1_counterexample:
  "snd (offscreen_run
        (posted (run (\<lambda>x. Inl JsonSyntaxError)
           [Submit (JobTranscode ''a.avi'' 1), Submit (JobTranscode ''b.avi'' 1)] initial)) None)
     = [RunTranscodeVideo ''a.avi'' 1, RunTranscodeVideo ''b.avi'' 1]
   \<and> promises (run (\<lambda>x. Inl JsonSyntaxError)
      (Submit (JobTranscode ''a.avi'' 1) # Submit (JobTranscode ''b.avi'' 1)
       # map Port (sendResult (Single ''QUJD'' ''video/mp4''))) initial)
     = [Pending, Resolved (Some (Single ''QUJD'' ''video/mp4''))]
   \<and> promises (run (\<lambda>x. Inl JsonSyntaxError)
      [Submit (JobTranscode ''a.avi'' 1), Advance 60000, Submit (JobExtractZip ''b.zip'' 1),
       Advance 300000] initial)
     = [Pending, Rejected (TimedOut ''Transcoding timed out'')]"
proof -
  have s: "sendResult (Single ''QUJD'' ''video/mp4'') = [RESULT None (Some (Single ''QUJD'' ''video/mp4''))]"
    by (simp add: sendResult_def MAX_MESSAGE_SIZE_def)
  show ?thesis
    unfolding s
    by (simp add: initial_def submit_def port_onMessage_def resolve_def reject_def advance_def
        timer_callback_def)
qed

text \<open>
  C2. Chunking round-trip: for every string and every chunk size \<open>max \<ge> 1\<close> the
  chunker produces exactly \<open>ceil(len / max)\<close> chunks, chunk \<open>i\<close> is the slice
  \<open>data[i * max : min((i + 1) * max, len)]\<close>, and concatenating the chunks in index
  order, as well as the receiver's reassembly by index, gives the data back; whatever the
  size of the archive text, the worker starts the extraction on exactly the text that the
  dispatcher uploaded.
\<close>

theorem C2_chunking_round_trip:
  assumes "1 \<le> maxSize"
  shows "length (chunker maxSize data) = ceil_div (length data) maxSize
    \<and> (\<forall>i < ceil_div (length data) maxSize.
          chunker maxSize data ! i =
            (i, take (min ((i + 1) * maxSize) (length data) - i * maxSize) (drop (i * maxSize) data)))
    \<and> concat (map snd (chunker maxSize data)) = data
    \<and> reassemble (chunker maxSize data) = data
    \<and> snd (offscreen_run (post_zip data tabId) ci) = [RunExtractZipFromData data tabId]"
proof -
  let ?n = "ceil_div (length data) maxSize"
  have pos: "0 < maxSize" using assms by simp
  have c: "chunker maxSize data = map (\<lambda>k. (k, chunk_at maxSize data k)) [0..<?n]"
    by (simp add: chunker_def chunk_loop_map)
  have len: "length (chunker maxSize data) = ?n"
    by (simp add: c)
  have nth: "\<forall>i < ?n. chunker maxSize data ! i =
      (i, take (min ((i + 1) * maxSize) (length data) - i * maxSize) (drop (i * maxSize) data))"
    by (simp add: c chunk_at_slice)
  have cover: "length data \<le> ?n * maxSize"
    using pos by (rule ceil_div_covers)
  have cc: "concat (map (chunk_at maxSize data) [0..<?n]) = data"
    using concat_chunks_take[of maxSize data ?n] cover
    by (simp add: chunk_at_take[abs_def])
  have cat: "concat (map snd (chunker maxSize data)) = data"
    using cc by (simp add: c comp_def)
  have re: "reassemble (chunker maxSize data) = data"
    using pos by (rule reassemble_chunker)
  have e2e: "snd (offscreen_run (post_zip data tabId) ci) = [RunExtractZipFromData data tabId]"
    by (rule offscreen_run_post_zip)
  from len nth cat re e2e show ?thesis by blast
qed

theorem C2_witness:
  "(1::nat) \<le> 3
   \<and> length (chunker 3 ''abcdefgh'') = 3
   \<and> chunker 3 ''abcdefgh'' ! 2 = (2, ''gh'')
   \<and> concat (map snd (chunker 3 ''abcdefgh'')) = ''abcdefgh''
   \<and> reassemble (chunker 3 ''abcdefgh'') = ''abcdefgh''
   \<and> snd (offscreen_run (post_zip ''abcdefgh'' 7) None) = [RunExtractZipFromData ''abcdefgh'' 7]"
proof -
  have h: "(1::nat) \<le> 3" by simp
  have n: "ceil_div (length ''abcdefgh'') 3 = 3" by (simp add: ceil_div_def)
  note t = C2_chunking_round_trip[OF h, of "''abcdefgh''" 7 None, unfolded n]
  from t have "chunker 3 ''abcdefgh'' ! 2 =
      (2, take (min ((2 + 1) * 3) (length ''abcdefgh'') - 2 * 3) (drop (2 * 3) ''abcdefgh''))"
    by simp
  then have "chunker 3 ''abcdefgh'' ! 2 = (2, ''gh'')" by simp
  with t h show ?thesis by simp
qed

text \<open>
  C3. Completeness gate: a process request for an existing transfer with
  \<open>received < totalChunks\<close> fails with the incomplete-transfer error; a process request
  issued after the declared number of chunk messages with distinct indices
  \<open>0 .. totalChunks - 1\<close> have arrived for a fresh transfer identifier, in any order of
  arrival, passes the gate with the chunks joined in index order, and the staging entry is
  removed. The order of arrival does not appear in the outcome.
\<close>

theorem C3_completeness_gate:
  shows "(chunkStorage tid = Some storage \<and> cs_received storage < cs_totalChunks storage \<longrightarrow>
            process_transfer tid chunkStorage =
              Inl (IncompleteTransfer (cs_received storage) (cs_totalChunks storage)))
    \<and> (chunkStorage tid = None \<and> 0 < length cks \<and> distinct order \<and> set order = {0..<length cks} \<longrightarrow>
            process_transfer tid
              (receive_chunks tid (length cks) (map (\<lambda>i. (i, cks ! i)) order) chunkStorage) =
              Inr (concat cks, chunkStorage))"
proof (intro conjI impI)
  assume "chunkStorage tid = Some storage \<and> cs_received storage < cs_totalChunks storage"
  then show "process_transfer tid chunkStorage =
      Inl (IncompleteTransfer (cs_received storage) (cs_totalChunks storage))"
    by (simp add: process_transfer_def)
next
  assume a: "chunkStorage tid = None \<and> 0 < length cks \<and> distinct order \<and> set order = {0..<length cks}"
  then have "receive_chunks tid (length cks) (map (\<lambda>i. (i, cks ! i)) order) chunkStorage =
     chunkStorage(tid \<mapsto> \<lparr>cs_chunks = map Some cks, cs_totalChunks = length cks,
                  cs_received = length cks\<rparr>)"
    by (intro receive_chunks_permutation) simp_all
  moreover have "chunkStorage(tid := None) = chunkStorage"
    using a by (simp add: fun_upd_idem)
  ultimately show "process_transfer tid
      (receive_chunks tid (length cks) (map (\<lambda>i. (i, cks ! i)) order) chunkStorage) =
      Inr (concat cks, chunkStorage)"
    by (simp add: process_transfer_def join_empty_Some)
qed


theorem C3_witness:
  "process_transfer ''t''
     [''t'' \<mapsto> \<lparr>cs_chunks = [Some ''ab'', None], cs_totalChunks = 2, cs_received = 1\<rparr>] =
     Inl (IncompleteTransfer 1 2)
   \<and> process_transfer ''t''
       (receive_chunks ''t'' 3 [(2, ''e''), (0, ''ab''), (1, ''cd'')] Map.empty) =
     Inr (''abcde'', Map.empty)"
proof -
  let ?st = "\<lparr>cs_chunks = [Some ''ab'', None], cs_totalChunks = 2, cs_received = 1\<rparr>"
  have a: "process_transfer ''t'' [''t'' \<mapsto> ?st] = Inl (IncompleteTransfer 1 2)"
    using C3_completeness_gate[of "[''t'' \<mapsto> ?st]" "''t''" ?st "[]" "[]"] by simp
  have s: "set [2, 0, 1 :: nat] = {0..<length [''ab'', ''cd'', ''e'']}"
    by (auto simp: atLeastLessThan_def lessThan_def)
  have b: "process_transfer ''t''
       (receive_chunks ''t'' 3 [(2, ''e''), (0, ''ab''), (1, ''cd'')] Map.empty) =
     Inr (''abcde'', Map.empty)"
    using C3_completeness_gate[of Map.empty "''t''" undefined "[''ab'', ''cd'', ''e'']" "[2, 0, 1]"] s
    by (simp add: numeral_3_eq_3)
  from a b show ?thesis by simp
qed

text \<open>
  C4, as amended. A result whose size (the length of \<open>base64\<close> for a single video, the
  sum of the videos' \<open>base64\<close> lengths for several) is at or below the 32 MiB ceiling is
  sent inline in one message; a result over the ceiling goes through the chunked path,
  and the declared chunk count is \<open>ceil(L / ceiling)\<close> for the length \<open>L\<close> of the text
  that is cut: the \<open>base64\<close> text for a single video, where \<open>L\<close> is the size, and
  the JSON serialization of the whole result for several videos, where \<open>L\<close> is larger
  than the size. The dispatcher's answer to the client follows the same rule, and so does,
  on the length of the archive text alone, the upload by the client and by the dispatcher.
\<close>

theorem C4_threshold_boundary_amended:
  "(totalSize res \<le> MAX_MESSAGE_SIZE \<longrightarrow> sendResult res = [RESULT None (Some res)])
 \<and> (MAX_MESSAGE_SIZE < length b64 \<longrightarrow>
      sendResult (Single b64 mime) =
        RESULT_CHUNKED_START (Some mime) False
          (ceil_div (totalSize (Single b64 mime)) MAX_MESSAGE_SIZE) (length b64)
        # map (\<lambda>(i, c). RESULT_CHUNK i c) (chunker MAX_MESSAGE_SIZE b64) @ [RESULT_CHUNKED_END])
 \<and> (MAX_MESSAGE_SIZE < totalSize (Multi vs) \<longrightarrow>
      sendResult (Multi vs) =
        RESULT_CHUNKED_START None True
          (ceil_div (length (JSON_stringify vs)) MAX_MESSAGE_SIZE) (length (JSON_stringify vs))
        # map (\<lambda>(i, c). RESULT_CHUNK i c) (chunker MAX_MESSAGE_SIZE (JSON_stringify vs))
        @ [RESULT_CHUNKED_END]
      \<and> totalSize (Multi vs) < length (JSON_stringify vs))
 \<and> (totalSize res \<le> MAX_RESPONSE_SIZE \<longrightarrow>
      respond_process tid res resultStorage = (Inline res, resultStorage))
 \<and> (MAX_RESPONSE_SIZE < length b64 \<longrightarrow>
      respond_process tid (Single b64 mime) resultStorage =
        (Chunked (tid @ ''_result'') (ceil_div (totalSize (Single b64 mime)) MAX_RESPONSE_SIZE)
           (length b64) (Some mime) False,
         resultStorage(tid @ ''_result'' \<mapsto> StoredSingle b64 mime)))
 \<and> (MAX_RESPONSE_SIZE < totalSize (Multi vs) \<longrightarrow>
      respond_process tid (Multi vs) resultStorage =
        (Chunked (tid @ ''_result'') (ceil_div (length (JSON_stringify vs)) MAX_RESPONSE_SIZE)
           (length (JSON_stringify vs)) None True,
         resultStorage(tid @ ''_result'' \<mapsto> StoredJson (JSON_stringify vs))))
 \<and> (length zipBase64 \<le> MAX_CHUNK_SIZE \<longrightarrow>
      client_upload tid zipBase64 = [Req_EXTRACT_ZIP_DATA zipBase64]
      \<and> post_zip zipBase64 tab = [EXTRACT_ZIP_DATA zipBase64 tab])
 \<and> (MAX_CHUNK_SIZE < length zipBase64 \<longrightarrow>
      client_upload tid zipBase64 =
        map (\<lambda>(i, c). Req_EXTRACT_ZIP_CHUNK tid i (ceil_div (length zipBase64) MAX_CHUNK_SIZE) c)
            (chunker MAX_CHUNK_SIZE zipBase64)
        @ [Req_EXTRACT_ZIP_PROCESS tid]
      \<and> post_zip zipBase64 tab =
        EXTRACT_ZIP_DATA_START (ceil_div (length zipBase64) MAX_CHUNK_SIZE) (length zipBase64) tab
        # map (\<lambda>(i, c). EXTRACT_ZIP_DATA_CHUNK i c) (chunker MAX_CHUNK_SIZE zipBase64)
        @ [EXTRACT_ZIP_DATA_END tab])"
proof (intro conjI impI)
  show "sendResult res = [RESULT None (Some res)]" if "totalSize res \<le> MAX_MESSAGE_SIZE"
    using that by (simp add: sendResult_def)
  show "sendResult (Single b64 mime) =
        RESULT_CHUNKED_START (Some mime) False
          (ceil_div (totalSize (Single b64 mime)) MAX_MESSAGE_SIZE) (length b64)
        # map (\<lambda>(i, c). RESULT_CHUNK i c) (chunker MAX_MESSAGE_SIZE b64) @ [RESULT_CHUNKED_END]"
    if "MAX_MESSAGE_SIZE < length b64"
    using that by (simp add: sendResult_def Let_def chunker_def)
  show "sendResult (Multi vs) =
        RESULT_CHUNKED_START None True
          (ceil_div (length (JSON_stringify vs)) MAX_MESSAGE_SIZE) (length (JSON_stringify vs))
        # map (\<lambda>(i, c). RESULT_CHUNK i c) (chunker MAX_MESSAGE_SIZE (JSON_stringify vs))
        @ [RESULT_CHUNKED_END]"
    if "MAX_MESSAGE_SIZE < totalSize (Multi vs)"
    using that by (simp add: sendResult_def Let_def chunker_def)
  show "totalSize (Multi vs) < length (JSON_stringify vs)"
    by (rule totalSize_less_JSON)
  show "respond_process tid res resultStorage = (Inline res, resultStorage)"
    if "totalSize res \<le> MAX_RESPONSE_SIZE"
    using that by (simp add: respond_process_def)
  show "respond_process tid (Single b64 mime) resultStorage =
        (Chunked (tid @ ''_result'') (ceil_div (totalSize (Single b64 mime)) MAX_RESPONSE_SIZE)
           (length b64) (Some mime) False,
         resultStorage(tid @ ''_result'' \<mapsto> StoredSingle b64 mime))"
    if "MAX_RESPONSE_SIZE < length b64"
    using that by (simp add: respond_process_def Let_def)
  show "respond_process tid (Multi vs) resultStorage =
        (Chunked (tid @ ''_result'') (ceil_div (length (JSON_stringify vs)) MAX_RESPONSE_SIZE)
           (length (JSON_stringify vs)) None True,
         resultStorage(tid @ ''_result'' \<mapsto> StoredJson (JSON_stringify vs)))"
    if "MAX_RESPONSE_SIZE < totalSize (Multi vs)"
    using that by (simp add: respond_process_def Let_def)
  show "client_upload tid zipBase64 = [Req_EXTRACT_ZIP_DATA zipBase64]"
    if "length zipBase64 \<le> MAX_CHUNK_SIZE"
    using that by (simp add: client_upload_def)
  show "post_zip zipBase64 tab = [EXTRACT_ZIP_DATA zipBase64 tab]"
    if "length zipBase64 \<le> MAX_CHUNK_SIZE"
    using that by (simp add: post_zip_def)
  show "client_upload tid zipBase64 =
        map (\<lambda>(i, c). Req_EXTRACT_ZIP_CHUNK tid i (ceil_div (length zipBase64) MAX_CHUNK_SIZE) c)
            (chunker MAX_CHUNK_SIZE zipBase64)
        @ [Req_EXTRACT_ZIP_PROCESS tid]"
    if "MAX_CHUNK_SIZE < length zipBase64"
    using that by (simp add: client_upload_def Let_def chunker_def)
  show "post_zip zipBase64 tab =
        EXTRACT_ZIP_DATA_START (ceil_div (length zipBase64) MAX_CHUNK_SIZE) (length zipBase64) tab
        # map (\<lambda>(i, c). EXTRACT_ZIP_DATA_CHUNK i c) (chunker MAX_CHUNK_SIZE zipBase64)
        @ [EXTRACT_ZIP_DATA_END tab]"
    if "MAX_CHUNK_SIZE < length zipBase64"
    using that by (simp add: post_zip_def Let_def chunker_def)
qed

theorem C4_witness:
  "sendResult (Single (replicate MAX_MESSAGE_SIZE CHR ''A'') ''video/mp4'') =
     [RESULT None (Some (Single (replicate MAX_MESSAGE_SIZE CHR ''A'') ''video/mp4''))]
   \<and> sendResult (Single (replicate MAX_MESSAGE_SIZE CHR ''A'' @ ''B'') ''video/mp4'') =
     RESULT_CHUNKED_START (Some ''video/mp4'') False 2 (MAX_MESSAGE_SIZE + 1)
     # map (\<lambda>(i, c). RESULT_CHUNK i c)
           (chunker MAX_MESSAGE_SIZE (replicate MAX_MESSAGE_SIZE CHR ''A'' @ ''B''))
     @ [RESULT_CHUNKED_END]
   \<and> post_zip (replicate MAX_CHUNK_SIZE CHR ''A'') 7 =
     [EXTRACT_ZIP_DATA (replicate MAX_CHUNK_SIZE CHR ''A'') 7]
   \<and> post_zip (replicate MAX_CHUNK_SIZE CHR ''A'' @ ''B'') 7 =
     EXTRACT_ZIP_DATA_START 2 (MAX_CHUNK_SIZE + 1) 7
     # map (\<lambda>(i, c). EXTRACT_ZIP_DATA_CHUNK i c)
           (chunker MAX_CHUNK_SIZE (replicate MAX_CHUNK_SIZE CHR ''A'' @ ''B''))
     @ [EXTRACT_ZIP_DATA_END 7]"
proof -
  let ?at = "replicate MAX_MESSAGE_SIZE CHR ''A''"
  let ?over = "replicate MAX_MESSAGE_SIZE CHR ''A'' @ ''B''"
  let ?zat = "replicate MAX_CHUNK_SIZE CHR ''A''"
  let ?zover = "replicate MAX_CHUNK_SIZE CHR ''A'' @ ''B''"
  have c: "ceil_div (MAX_MESSAGE_SIZE + 1) MAX_MESSAGE_SIZE = 2"
    "ceil_div (MAX_CHUNK_SIZE + 1) MAX_CHUNK_SIZE = 2"
    by (simp_all add: ceil_div_def MAX_MESSAGE_SIZE_def MAX_CHUNK_SIZE_def)
  have a: "sendResult (Single ?at ''video/mp4'') = [RESULT None (Some (Single ?at ''video/mp4''))]"
    using C4_threshold_boundary_amended[where res = "Single ?at ''video/mp4''"] by simp
  have b: "sendResult (Single ?over ''video/mp4'') =
     RESULT_CHUNKED_START (Some ''video/mp4'') False 2 (MAX_MESSAGE_SIZE + 1)
     # map (\<lambda>(i, c). RESULT_CHUNK i c) (chunker MAX_MESSAGE_SIZE ?over) @ [RESULT_CHUNKED_END]"
    using C4_threshold_boundary_amended[where ?b64.0 = ?over and mime = "''video/mp4''"] c
    by simp
  have d: "post_zip ?zat 7 = [EXTRACT_ZIP_DATA ?zat 7]"
    using C4_threshold_boundary_amended[where ?zipBase64.0 = ?zat and tab = 7] by simp
  have e: "post_zip ?zover 7 =
     EXTRACT_ZIP_DATA_START 2 (MAX_CHUNK_SIZE + 1) 7
     # map (\<lambda>(i, c). EXTRACT_ZIP_DATA_CHUNK i c) (chunker MAX_CHUNK_SIZE ?zover)
     @ [EXTRACT_ZIP_DATA_END 7]"
    using C4_threshold_boundary_amended[where ?zipBase64.0 = ?zover and tab = 7] c
    by simp
  from a b d e show ?thesis by blast
qed


text \<open>
  C4 as stated fails for several videos: two videos of exactly 32 MiB of \<open>base64\<close> each
  have size \<open>2 * ceiling\<close>, so \<open>ceil(size / ceiling) = 2\<close>, and the worker declares 3
  chunks, for the 132 characters of JSON around them.
\<close>

theorem C4_counterexample:
  "totalSize (Multi [\<lparr>name = ''a.mp4'', base64 = replicate MAX_MESSAGE_SIZE CHR ''A'', mimeType = ''video/mp4''\<rparr>,
                    \<lparr>name = ''b.mp4'', base64 = replicate MAX_MESSAGE_SIZE CHR ''A'', mimeType = ''video/mp4''\<rparr>])
     = 2 * MAX_MESSAGE_SIZE
   \<and> ceil_div (2 * MAX_MESSAGE_SIZE) MAX_MESSAGE_SIZE = 2
   \<and> hd (sendResult (Multi [\<lparr>name = ''a.mp4'', base64 = replicate MAX_MESSAGE_SIZE CHR ''A'', mimeType = ''video/mp4''\<rparr>,
                    \<lparr>name = ''b.mp4'', base64 = replicate MAX_MESSAGE_SIZE CHR ''A'', mimeType = ''video/mp4''\<rparr>]))
     = RESULT_CHUNKED_START None True 3 (2 * MAX_MESSAGE_SIZE + 132)"
proof -
  let ?a = "\<lparr>name = ''a.mp4'', base64 = replicate MAX_MESSAGE_SIZE CHR ''A'', mimeType = ''video/mp4''\<rparr>"
  let ?b = "\<lparr>name = ''b.mp4'', base64 = replicate MAX_MESSAGE_SIZE CHR ''A'', mimeType = ''video/mp4''\<rparr>"
  have q: "JSON_quote (replicate MAX_MESSAGE_SIZE CHR ''A'') = CHR 0x22 # replicate MAX_MESSAGE_SIZE CHR ''A'' @ [CHR 0x22]"
    using JSON_quote_replicate_A[of MAX_MESSAGE_SIZE "[]"] by simp
  have len: "length (JSON_stringify [?a, ?b]) = 2 * MAX_MESSAGE_SIZE + 132"
    by (simp add: JSON_stringify_def JSON_video_def JSON_key_def q)
       (simp add: JSON_quote_def json_escape_def)
  have ts: "totalSize (Multi [?a, ?b]) = 2 * MAX_MESSAGE_SIZE" by simp
  have c2: "ceil_div (2 * MAX_MESSAGE_SIZE) MAX_MESSAGE_SIZE = 2"
    by (simp add: ceil_div_def MAX_MESSAGE_SIZE_def)
  have c3: "ceil_div (2 * MAX_MESSAGE_SIZE + 132) MAX_MESSAGE_SIZE = 3"
    by (simp add: ceil_div_def MAX_MESSAGE_SIZE_def)
  have gt: "\<not> totalSize (Multi [?a, ?b]) \<le> MAX_MESSAGE_SIZE"
    unfolding ts using MAX_MESSAGE_SIZE_pos by simp
  have "hd (sendResult (Multi [?a, ?b])) = RESULT_CHUNKED_START None True 3 (2 * MAX_MESSAGE_SIZE + 132)"
    unfolding sendResult_def using gt by (simp add: Let_def len c3 del: totalSize.simps)
  with ts c2 show ?thesis by blast
qed

text \<open>
  C5. Timeout semantics: the deadline is 5 minutes for transcoding and for the two simple
  extractions and 10 minutes for the chunked extraction. In every state of the dispatcher,
  a job that is submitted and whose result has not arrived, whatever time passes and
  whatever other messages arrive in between (no further job being submitted), is failed
  with a timeout error once its deadline has expired, and the slot is empty; what the
  worker sends after that changes no promise, leaves the slot empty and raises no
  exception. When no older timer is due by the job's deadline, the job is pending with its
  pair in the slot until the deadline, and at the deadline it is failed with its own
  timeout message. In every state, a job that holds the slot when any timer is due is
  failed with a timeout error and the slot is cleared; with the slot empty, worker
  messages change no promise.
\<close>

theorem C5_timeout_semantics:
  "timeout_ms (JobTranscode videoUrl tab) = 5 * 60 * 1000
 \<and> timeout_ms (JobExtractZip zipUrl tab) = 5 * 60 * 1000
 \<and> timeout_ms (JobExtractZipData zipBase64 tab) = 5 * 60 * 1000
 \<and> timeout_ms (JobExtractZipProcess zipBase64 tab) = 10 * 60 * 1000
 \<and> (list_all no_result evs \<and> clock s + timeout_ms j \<le> t \<longrightarrow>
      (\<exists>msg. promises (advance t (run JSON_parse evs (submit j s))) ! length (promises s)
               = Rejected (TimedOut msg))
      \<and> pendingTranscode (advance t (run JSON_parse evs (submit j s))) = None
      \<and> promises (foldl (\<lambda>s' m. port_onMessage JSON_parse m s')
                     (advance t (run JSON_parse evs (submit j s))) ms)
          = promises (advance t (run JSON_parse evs (submit j s)))
      \<and> pendingTranscode (foldl (\<lambda>s' m. port_onMessage JSON_parse m s')
                     (advance t (run JSON_parse evs (submit j s))) ms) = None
      \<and> uncaught (foldl (\<lambda>s' m. port_onMessage JSON_parse m s')
                     (advance t (run JSON_parse evs (submit j s))) ms)
          = uncaught (advance t (run JSON_parse evs (submit j s))))
 \<and> ((\<forall>(due, msg) \<in> set (timers s). clock s + timeout_ms j < due) \<longrightarrow>
      (t < clock s + timeout_ms j \<longrightarrow>
         promises (advance t (submit j s)) ! length (promises s) = Pending
         \<and> pendingTranscode (advance t (submit j s)) = Some (length (promises s)))
      \<and> (clock s + timeout_ms j \<le> t \<longrightarrow>
         promises (advance t (submit j s)) ! length (promises s) = Rejected (TimedOut (timeout_message j))
         \<and> pendingTranscode (advance t (submit j s)) = None))
 \<and> (pendingTranscode s1 = Some n \<and> n < length (promises s1) \<and> promises s1 ! n = Pending
      \<and> (d, m) \<in> set (timers s1) \<and> d \<le> t \<longrightarrow>
      (\<exists>msg. promises (advance t s1) ! n = Rejected (TimedOut msg))
      \<and> pendingTranscode (advance t s1) = None)
 \<and> (pendingTranscode s2 = None \<longrightarrow>
      promises (foldl (\<lambda>s' m. port_onMessage JSON_parse m s') s2 ms) = promises s2
      \<and> pendingTranscode (foldl (\<lambda>s' m. port_onMessage JSON_parse m s') s2 ms) = None
      \<and> uncaught (foldl (\<lambda>s' m. port_onMessage JSON_parse m s') s2 ms) = uncaught s2)"
proof -
  let ?X = "advance t (run JSON_parse evs (submit j s))"
  have E: "(\<exists>msg. promises ?X ! length (promises s) = Rejected (TimedOut msg))
      \<and> pendingTranscode ?X = None
      \<and> promises (foldl (\<lambda>s' m. port_onMessage JSON_parse m s') ?X ms) = promises ?X
      \<and> pendingTranscode (foldl (\<lambda>s' m. port_onMessage JSON_parse m s') ?X ms) = None
      \<and> uncaught (foldl (\<lambda>s' m. port_onMessage JSON_parse m s') ?X ms) = uncaught ?X"
    if h: "list_all no_result evs \<and> clock s + timeout_ms j \<le> t"
  proof -
    from h have a: "list_all no_result evs" and b: "clock s + timeout_ms j \<le> t" by simp_all
    note d = timeout_by_deadline[OF a b, of JSON_parse]
    from d have "pendingTranscode ?X = None" by simp
    from ports_late[OF this, of JSON_parse ms] d show ?thesis by simp
  qed
  have F1: "promises (advance t (submit j s)) ! length (promises s) = Pending
         \<and> pendingTranscode (advance t (submit j s)) = Some (length (promises s))"
    if "\<forall>(due, msg) \<in> set (timers s). clock s + timeout_ms j < due" "t < clock s + timeout_ms j"
    using advance_own_timer_before[OF that] by simp
  have F2: "promises (advance t (submit j s)) ! length (promises s) = Rejected (TimedOut (timeout_message j))
         \<and> pendingTranscode (advance t (submit j s)) = None"
    if "\<forall>(due, msg) \<in> set (timers s). clock s + timeout_ms j < due" "clock s + timeout_ms j \<le> t"
    using advance_own_timer_after[OF that] by simp
  have G: "(\<exists>msg. promises (advance t s1) ! n = Rejected (TimedOut msg))
      \<and> pendingTranscode (advance t s1) = None"
    if "pendingTranscode s1 = Some n \<and> n < length (promises s1) \<and> promises s1 ! n = Pending
      \<and> (d, m) \<in> set (timers s1) \<and> d \<le> t"
    using advance_due[of s1 n d m t] that by simp
  have L: "promises (foldl (\<lambda>s' m. port_onMessage JSON_parse m s') s2 ms) = promises s2
      \<and> pendingTranscode (foldl (\<lambda>s' m. port_onMessage JSON_parse m s') s2 ms) = None
      \<and> uncaught (foldl (\<lambda>s' m. port_onMessage JSON_parse m s') s2 ms) = uncaught s2"
    if "pendingTranscode s2 = None"
    using ports_late[OF that] .
  have D: "timeout_ms (JobTranscode videoUrl tab) = 5 * 60 * 1000
     \<and> timeout_ms (JobExtractZip zipUrl tab) = 5 * 60 * 1000
     \<and> timeout_ms (JobExtractZipData zipBase64 tab) = 5 * 60 * 1000
     \<and> timeout_ms (JobExtractZipProcess zipBase64 tab) = 10 * 60 * 1000"
    by simp
  from D E F1 F2 G L show ?thesis by (intro conjI impI) (simp_all del: timeout_ms.simps)
qed


theorem C5_witness:
  "promises (advance 299999 (submit (JobTranscode ''a.avi'' 1) initial)) ! 0 = Pending
 \<and> promises (advance 300000 (submit (JobTranscode ''a.avi'' 1) initial)) ! 0
     = Rejected (TimedOut ''Transcoding timed out'')
 \<and> pendingTranscode (advance 300000 (submit (JobTranscode ''a.avi'' 1) initial)) = None
 \<and> promises (advance 599999 (submit (JobExtractZipProcess ''UEs='' 1) initial)) ! 0 = Pending
 \<and> promises (advance 600000 (submit (JobExtractZipProcess ''UEs='' 1) initial)) ! 0
     = Rejected (TimedOut ''ZIP extraction timed out'')
 \<and> (\<exists>msg. promises
       (advance 602000
         (run (\<lambda>x. Inl JsonSyntaxError) [Port (PROGRESS 1 ''Extracting ZIP...'' 0)]
           (submit (JobExtractZipProcess ''UEs='' 1)
             (run (\<lambda>x. Inl JsonSyntaxError)
                [Submit (JobTranscode ''a.avi'' 1),
                 Port (RESULT None (Some (Single ''QUJD'' ''video/mp4''))), Advance 2000]
                initial)))) ! 1
       = Rejected (TimedOut msg))
 \<and> pendingTranscode
       (advance 602000
         (run (\<lambda>x. Inl JsonSyntaxError) [Port (PROGRESS 1 ''Extracting ZIP...'' 0)]
           (submit (JobExtractZipProcess ''UEs='' 1)
             (run (\<lambda>x. Inl JsonSyntaxError)
                [Submit (JobTranscode ''a.avi'' 1),
                 Port (RESULT None (Some (Single ''QUJD'' ''video/mp4''))), Advance 2000]
                initial)))) = None
 \<and> promises (foldl (\<lambda>s' m. port_onMessage (\<lambda>x. Inl JsonSyntaxError) m s')
       (advance 300000 (submit (JobTranscode ''a.avi'' 1) initial))
       [RESULT None (Some (Single ''QUJD'' ''video/mp4'')),
        RESULT_CHUNKED_START None True 1 4, RESULT_CHUNK 0 ''oops'', RESULT_CHUNKED_END])
     = [Rejected (TimedOut ''Transcoding timed out'')]
 \<and> uncaught (foldl (\<lambda>s' m. port_onMessage (\<lambda>x. Inl JsonSyntaxError) m s')
       (advance 300000 (submit (JobTranscode ''a.avi'' 1) initial))
       [RESULT None (Some (Single ''QUJD'' ''video/mp4'')),
        RESULT_CHUNKED_START None True 1 4, RESULT_CHUNK 0 ''oops'', RESULT_CHUNKED_END])
     = []"
proof -
  let ?j = "JobTranscode ''a.avi'' 1"
  let ?k = "JobExtractZipProcess ''UEs='' 1"
  let ?P = "\<lambda>x::string. (Inl JsonSyntaxError :: error + result)"
  let ?ms = "[RESULT None (Some (Single ''QUJD'' ''video/mp4'')),
        RESULT_CHUNKED_START None True 1 4, RESULT_CHUNK 0 ''oops'', RESULT_CHUNKED_END]"
  define busy where "busy = run ?P [Submit ?j, Port (RESULT None (Some (Single ''QUJD'' ''video/mp4''))),
      Advance 2000] initial"
  have i: "timers initial = []" "clock initial = 0" "promises initial = []" "uncaught initial = []"
    by (simp_all add: initial_def)
  have bz: "clock busy = 2000" "length (promises busy) = 1"
    by (simp_all add: busy_def initial_def submit_def port_onMessage_def resolve_def advance_def)
  have a: "promises (advance 299999 (submit ?j initial)) ! 0 = Pending"
    using C5_timeout_semantics[where s = initial and t = 299999 and j = ?j] i by simp
  have b: "promises (advance 300000 (submit ?j initial)) ! 0 = Rejected (TimedOut ''Transcoding timed out'')
      \<and> pendingTranscode (advance 300000 (submit ?j initial)) = None"
    using C5_timeout_semantics[where s = initial and t = 300000 and j = ?j] i by simp
  have c: "promises (advance 600000 (submit ?k initial)) ! 0 = Rejected (TimedOut ''ZIP extraction timed out'')"
    using C5_timeout_semantics[where s = initial and t = 600000 and j = ?k] i by simp
  have c': "promises (advance 599999 (submit ?k initial)) ! 0 = Pending"
    using C5_timeout_semantics[where s = initial and t = 599999 and j = ?k] i by simp
  have e: "(\<exists>msg. promises (advance 602000 (run ?P [Port (PROGRESS 1 ''Extracting ZIP...'' 0)]
                (submit ?k busy))) ! 1 = Rejected (TimedOut msg))
      \<and> pendingTranscode (advance 602000 (run ?P [Port (PROGRESS 1 ''Extracting ZIP...'' 0)]
                (submit ?k busy))) = None"
    using C5_timeout_semantics[where s = busy and t = 602000 and j = ?k and JSON_parse = ?P
        and evs = "[Port (PROGRESS 1 ''Extracting ZIP...'' 0)]"] bz
    by simp
  have p: "promises (advance 300000 (submit ?j initial)) = [Rejected (TimedOut ''Transcoding timed out'')]"
    and u: "uncaught (advance 300000 (submit ?j initial)) = []"
    by (simp_all add: advance_def submit_def initial_def timer_callback_def reject_def)
  have d: "promises (foldl (\<lambda>s' m. port_onMessage ?P m s') (advance 300000 (submit ?j initial)) ?ms)
        = [Rejected (TimedOut ''Transcoding timed out'')]
      \<and> uncaught (foldl (\<lambda>s' m. port_onMessage ?P m s') (advance 300000 (submit ?j initial)) ?ms) = []"
    using C5_timeout_semantics[where ?s2.0 = "advance 300000 (submit ?j initial)" and JSON_parse = ?P
        and ms = ?ms] b p u
    by simp
  from a b c c' d e show ?thesis unfolding busy_def by blast
qed

text \<open>
  Timers are never cancelled, so an older one can fail a job before the job's own
  deadline, with the older job's message: a transcoding job is submitted at time 0 and
  answered, a chunked extraction is submitted at 2 seconds, and at 5 minutes the first
  job's timer fails the second.
\<close>

lemma stale_timer_example:
  "promises
       (advance 300000
           (submit (JobExtractZipProcess ''UEs='' 1)
             (run (\<lambda>x. Inl JsonSyntaxError)
                [Submit (JobTranscode ''a.avi'' 1),
                 Port (RESULT None (Some (Single ''QUJD'' ''video/mp4''))), Advance 2000]
                initial)))
     = [Resolved (Some (Single ''QUJD'' ''video/mp4'')), Rejected (TimedOut ''Transcoding timed out'')]"
  by (simp add: initial_def submit_def port_onMessage_def resolve_def reject_def advance_def
      timer_callback_def)


text \<open>
  C6. Stored-result single drain: a stored result (its data is non-empty; a stored result
  is longer than the ceiling) is drained by pulling the chunks \<open>0 .. totalChunks - 1\<close>
  once, the chunks concatenate to the stored data, the entry survives every pull but the
  final one and is deleted by that one, and any later pull, or a second drain, fails with
  the not-found error.
\<close>

theorem C6_stored_result_single_drain:
  assumes "resultStorage rid = Some st" and "0 < length (stored_data st)"
  shows "(\<forall>i < ceil_div (length (stored_data st)) MAX_RESPONSE_SIZE.
           handleGetResultChunk rid (int i) resultStorage =
             Inr (\<lparr>chunk = take MAX_CHUNK_SIZE (drop (i * MAX_CHUNK_SIZE) (stored_data st)),
                   isLast = (i = ceil_div (length (stored_data st)) MAX_RESPONSE_SIZE - 1)\<rparr>,
                  if i = ceil_div (length (stored_data st)) MAX_RESPONSE_SIZE - 1
                  then resultStorage(rid := None) else resultStorage))
    \<and> pull_loop rid (ceil_div (length (stored_data st)) MAX_RESPONSE_SIZE) 0 [] resultStorage =
          Inr (map (\<lambda>i. take MAX_CHUNK_SIZE (drop (i * MAX_CHUNK_SIZE) (stored_data st)))
                   [0..<ceil_div (length (stored_data st)) MAX_RESPONSE_SIZE],
               resultStorage(rid := None))
    \<and> concat (map (\<lambda>i. take MAX_CHUNK_SIZE (drop (i * MAX_CHUNK_SIZE) (stored_data st)))
                   [0..<ceil_div (length (stored_data st)) MAX_RESPONSE_SIZE]) = stored_data st
    \<and> (\<forall>j. handleGetResultChunk rid j (resultStorage(rid := None)) = Inl (ResultNotFound rid))
    \<and> pull_loop rid (ceil_div (length (stored_data st)) MAX_RESPONSE_SIZE) 0 []
          (resultStorage(rid := None)) = Inl (ResultNotFound rid)"
proof -
  let ?d = "stored_data st"
  let ?M = "MAX_CHUNK_SIZE"
  let ?n = "ceil_div (length ?d) ?M"
  have npos: "0 < ?n"
    using ceil_div_covers[OF MAX_CHUNK_SIZE_pos, of "length ?d"] assms(2)
    by (cases "?n = 0") simp_all
  have one: "\<forall>i < ?n. handleGetResultChunk rid (int i) resultStorage =
             Inr (\<lparr>chunk = take ?M (drop (i * ?M) ?d), isLast = (i = ?n - 1)\<rparr>,
                  if i = ?n - 1 then resultStorage(rid := None) else resultStorage)"
    using pull_in_range[of resultStorage rid st, OF assms] by (simp add: chunk_at_take)
  have two: "pull_loop rid ?n 0 [] resultStorage =
      Inr (map (\<lambda>i. take ?M (drop (i * ?M) ?d)) [0..<?n], resultStorage(rid := None))"
    using pull_loop_drain[of resultStorage rid st ?n 0 "[]", OF assms refl npos]
    by (simp add: chunk_at_take[abs_def])
  have three: "concat (map (\<lambda>i. take ?M (drop (i * ?M) ?d)) [0..<?n]) = ?d"
    using concat_chunks_take[of ?M ?d ?n] ceil_div_covers[OF MAX_CHUNK_SIZE_pos, of "length ?d"]
    by simp
  have four: "\<forall>j. handleGetResultChunk rid j (resultStorage(rid := None)) = Inl (ResultNotFound rid)"
    by (simp add: handleGetResultChunk_def)
  have five: "pull_loop rid ?n 0 [] (resultStorage(rid := None)) = Inl (ResultNotFound rid)"
    using pull_loop_fail[OF npos, of rid "resultStorage(rid := None)" "ResultNotFound rid" "[]"] four
    by simp
  from one two three four five show ?thesis
    unfolding MAX_RESPONSE_SIZE_eq by blast
qed

theorem C6_witness:
  "pull_loop ''r'' 2 0 []
     [''r'' \<mapsto> StoredSingle (replicate MAX_CHUNK_SIZE CHR ''A'' @ ''B'') ''video/mp4''] =
     Inr ([replicate MAX_CHUNK_SIZE CHR ''A'', ''B''], Map.empty)
   \<and> handleGetResultChunk ''r'' 0 Map.empty = Inl (ResultNotFound ''r'')
   \<and> pull_loop ''r'' 2 0 [] Map.empty = Inl (ResultNotFound ''r'')"
proof -
  let ?st = "StoredSingle (replicate MAX_CHUNK_SIZE CHR ''A'' @ ''B'') ''video/mp4''"
  have h1: "[''r'' \<mapsto> ?st] ''r'' = Some ?st" by simp
  have h2: "0 < length (stored_data ?st)" by simp
  have n: "ceil_div (length (stored_data ?st)) MAX_RESPONSE_SIZE = 2"
    by (simp add: ceil_div_def MAX_RESPONSE_SIZE_def MAX_CHUNK_SIZE_def)
  have u: "[0..<2] = [0, 1]" by (simp add: upt_rec)
  note t = C6_stored_result_single_drain[of "[''r'' \<mapsto> ?st]" "''r''" ?st, OF h1 h2, unfolded n u]
  have c1: "take MAX_CHUNK_SIZE (drop (1 * MAX_CHUNK_SIZE) (stored_data ?st)) = ''B''"
    using MAX_CHUNK_SIZE_pos by simp
  have c0: "take MAX_CHUNK_SIZE (drop (0 * MAX_CHUNK_SIZE) (stored_data ?st)) = replicate MAX_CHUNK_SIZE CHR ''A''"
    by simp
  from t c0 c1 show ?thesis by simp
qed

text \<open>
  C7. Binary-to-text round trip: for every byte sequence, zero bytes and bytes from 0x80
  on included, decoding the base64 text that \<open>uint8ToBase64\<close> produces gives the bytes
  back, in the decoding loop and in the blob that \<open>base64ToBlobUrl\<close> builds. No chunking
  of the text is involved.
\<close>

theorem C7_base64_round_trip:
  "base64ToBytes (uint8ToBase64 bytes) = Inr bytes
   \<and> base64ToBlobUrl (uint8ToBase64 bytes) mime = Inr (bytes, mime)"
  by (simp add: base64ToBlobUrl_def base64ToBytes_def uint8ToBase64_def atob_btoa binary_loop_eq
      charCode_fromCharCode)

lemma uint8ToBase64_example:
  "uint8ToBase64 [0x00, 0x80, 0xFF, 0x41] = ''AID/QQ==''"
  by (simp add: uint8ToBase64_def binary_loop_eq fromCharCode_def btoa_def b64_char_def b64_alphabet_def)

text \<open>
  C8. Name-sorted order of several videos: when the archive text decodes, the archive
  reader yields the entries, at least two of them are recognized videos, each can be read
  and the engine converts those that need it, extraction from bytes returns the
  several-videos result; its items are the recognized entries, one each, and their names
  are in the order of the comparator (taken to be total and transitive on these names, as
  \<open>localeCompare\<close> is). The order of the entries in the archive does not matter: for
  entries with distinct names and a comparator that tells distinct names apart, the same
  entries in any other order give the same result.
\<close>

theorem C8_name_sorted_multi_media:
  assumes "base64ToBytes zipBase64 = Inr zipData" and "loadAsync zipData = Inr files"
    and "2 \<le> length (video_entries files)"
    and "converts ffmpeg files"
    and "\<forall>a \<in> fst ` set (video_entries files). \<forall>b \<in> fst ` set (video_entries files).
           localeCompare a b \<le> 0 \<or> localeCompare b a \<le> 0"
    and "\<forall>a \<in> fst ` set (video_entries files). \<forall>b \<in> fst ` set (video_entries files).
         \<forall>d \<in> fst ` set (video_entries files).
           localeCompare a b \<le> 0 \<and> localeCompare b d \<le> 0 \<longrightarrow> localeCompare a d \<le> 0"
  shows "\<exists>vs. extractZipFromData loadAsync localeCompare ffmpeg zipBase64 = Inr (Multi vs)
      \<and> length vs = length (video_entries files)
      \<and> set (map name vs) = fst ` set (video_entries files)
      \<and> map name vs =
          map fst (sort_cmp (\<lambda>a b. localeCompare (fst a) (fst b)) (video_entries files))
      \<and> sorted_wrt (\<lambda>a b. localeCompare a b \<le> 0) (map name vs)
      \<and> (\<forall>files'. set files' = set files \<and> distinct (map fst files) \<and> distinct (map fst files')
            \<and> (\<forall>a \<in> fst ` set (video_entries files). \<forall>b \<in> fst ` set (video_entries files).
                  localeCompare a b \<le> 0 \<and> localeCompare b a \<le> 0 \<longrightarrow> a = b)
            \<longrightarrow> extract_from_zip localeCompare ffmpeg files' = Inr (Multi vs))"
proof -
  let ?c = "\<lambda>a b. localeCompare (fst a) (fst b)"
  let ?N = "fst ` set (video_entries files)"
  from extract_from_zip_multi[OF assms(4,3), of localeCompare]
  obtain vs where ex: "extract_from_zip localeCompare ffmpeg files = Inr (Multi vs)"
    and names: "map name vs = map fst (sort_cmp ?c (video_entries files))"
    by blast
  have e: "extractZipFromData loadAsync localeCompare ffmpeg zipBase64 = Inr (Multi vs)"
    using assms(1,2) ex by (simp add: extractZipFromData_def)
  have len: "length vs = length (video_entries files)"
    using names by (metis length_map length_sort_cmp)
  have st: "set (map name vs) = ?N"
    unfolding names by simp
  have tot: "\<And>a b. a \<in> ?N \<Longrightarrow> b \<in> ?N \<Longrightarrow> localeCompare a b \<le> 0 \<or> localeCompare b a \<le> 0"
    using assms(5) by blast
  have tr: "\<And>a b d. a \<in> ?N \<Longrightarrow> b \<in> ?N \<Longrightarrow> d \<in> ?N \<Longrightarrow> localeCompare a b \<le> 0 \<Longrightarrow>
      localeCompare b d \<le> 0 \<Longrightarrow> localeCompare a d \<le> 0"
    using assms(6) by blast
  have srt: "sorted_wrt (\<lambda>a b. localeCompare a b \<le> 0) (map name vs)"
    unfolding names sorted_wrt_map_fst
  proof (rule sorted_sort_cmp[where S = "set (video_entries files)"])
    show "?c a b \<le> 0 \<or> ?c b a \<le> 0"
      if "a \<in> set (video_entries files)" "b \<in> set (video_entries files)" for a b
      using tot[of "fst a" "fst b"] that by simp
    show "?c a d \<le> 0"
      if "a \<in> set (video_entries files)" "b \<in> set (video_entries files)"
        "d \<in> set (video_entries files)" "?c a b \<le> 0" "?c b d \<le> 0" for a b d
      using tr[of "fst a" "fst b" "fst d"] that by simp
    show "set (video_entries files) \<subseteq> set (video_entries files)" by simp
  qed
  have ind: "extract_from_zip localeCompare ffmpeg files' = Inr (Multi vs)"
    if h: "set files' = set files \<and> distinct (map fst files) \<and> distinct (map fst files')
            \<and> (\<forall>a \<in> ?N. \<forall>b \<in> ?N. localeCompare a b \<le> 0 \<and> localeCompare b a \<le> 0 \<longrightarrow> a = b)"
    for files'
  proof -
    from h have r: "set files' = set files" "distinct (map fst files)" "distinct (map fst files')"
      by simp_all
    have anti: "\<And>a b. a \<in> ?N \<Longrightarrow> b \<in> ?N \<Longrightarrow> localeCompare a b \<le> 0 \<Longrightarrow>
        localeCompare b a \<le> 0 \<Longrightarrow> a = b"
      using h by blast
    note v = video_entries_reordered[OF r]
    have dm: "distinct (map fst (video_entries files))"
      using r(2) by (simp add: video_entries_def distinct_map_filter)
    have s: "sort_cmp ?c (video_entries files') = sort_cmp ?c (video_entries files)"
      by (rule sort_reordered[where N = ?N, OF tot tr anti refl v(1) dm v(3)])
    have l: "length (video_entries files') = length (video_entries files)"
      using v by (metis distinct_card)
    show ?thesis
      using ex unfolding extract_from_zip_def Let_def s l .
  qed
  from e len st names srt ind show ?thesis by blast
qed


theorem C8_witness:
  "\<exists>vs. extractZipFromData
          (\<lambda>zipData. Inr [(''c.mp4'', \<lparr>dir = False, content = Inr [3]\<rparr>),
                          (''a.webm'', \<lparr>dir = False, content = Inr [1]\<rparr>),
                          (''__MACOSX/x.mp4'', \<lparr>dir = False, content = Inr [9]\<rparr>),
                          (''b.avi'', \<lparr>dir = False, content = Inr [2]\<rparr>)])
          byCodeUnits (\<lambda>i ext videoData. Inr (videoData @ [0xFF])) ''UEs='' = Inr (Multi vs)
      \<and> map name vs = [''a.webm'', ''b.avi'', ''c.mp4'']
      \<and> extract_from_zip byCodeUnits (\<lambda>i ext videoData. Inr (videoData @ [0xFF]))
            (rev [(''c.mp4'', \<lparr>dir = False, content = Inr [3]\<rparr>),
                  (''a.webm'', \<lparr>dir = False, content = Inr [1]\<rparr>),
                  (''__MACOSX/x.mp4'', \<lparr>dir = False, content = Inr [9]\<rparr>),
                  (''b.avi'', \<lparr>dir = False, content = Inr [2]\<rparr>)]) = Inr (Multi vs)"
proof -
  define files :: zip_files where
    "files = [(''c.mp4'', \<lparr>dir = False, content = Inr [3]\<rparr>),
              (''a.webm'', \<lparr>dir = False, content = Inr [1]\<rparr>),
              (''__MACOSX/x.mp4'', \<lparr>dir = False, content = Inr [9]\<rparr>),
              (''b.avi'', \<lparr>dir = False, content = Inr [2]\<rparr>)]"
  define ff :: "nat \<Rightarrow> string \<Rightarrow> 8 word list \<Rightarrow> error + 8 word list" where
    "ff = (\<lambda>i ext videoData. Inr (videoData @ [0xFF]))"
  define load :: "8 word list \<Rightarrow> error + zip_files" where
    "load = (\<lambda>zipData. Inr files)"
  have h1: "base64ToBytes ''UEs='' = Inr [0x50, 0x4B]" by code_simp
  have h2: "load [0x50, 0x4B] = Inr files" by (simp add: load_def)
  have ve: "video_entries files =
      [(''c.mp4'', \<lparr>dir = False, content = Inr [3]\<rparr>),
       (''a.webm'', \<lparr>dir = False, content = Inr [1]\<rparr>),
       (''b.avi'', \<lparr>dir = False, content = Inr [2]\<rparr>)]"
    unfolding files_def by code_simp
  have h3: "2 \<le> length (video_entries files)" unfolding ve by simp
  have h4: "converts ff files"
    unfolding converts_def ve ff_def by simp
  have h5: "\<forall>a \<in> fst ` set (video_entries files). \<forall>b \<in> fst ` set (video_entries files).
           byCodeUnits a b \<le> 0 \<or> byCodeUnits b a \<le> 0"
    using byCodeUnits_total by blast
  have h6: "\<forall>a \<in> fst ` set (video_entries files). \<forall>b \<in> fst ` set (video_entries files).
         \<forall>d \<in> fst ` set (video_entries files).
           byCodeUnits a b \<le> 0 \<and> byCodeUnits b d \<le> 0 \<longrightarrow> byCodeUnits a d \<le> 0"
    using byCodeUnits_trans by blast
  have srt: "map fst (sort_cmp (\<lambda>a b. byCodeUnits (fst a) (fst b)) (video_entries files)) =
      [''a.webm'', ''b.avi'', ''c.mp4'']"
    unfolding ve by code_simp
  have d: "distinct (map fst files)" unfolding files_def by simp
  have r: "set (rev files) = set files \<and> distinct (map fst files) \<and> distinct (map fst (rev files))
      \<and> (\<forall>a \<in> fst ` set (video_entries files). \<forall>b \<in> fst ` set (video_entries files).
            byCodeUnits a b \<le> 0 \<and> byCodeUnits b a \<le> 0 \<longrightarrow> a = b)"
  proof -
    have "distinct (map fst (rev files))" using d by (simp only: rev_map[symmetric] distinct_rev)
    with d byCodeUnits_eq show ?thesis by simp
  qed
  from C8_name_sorted_multi_media[of "''UEs=''" "[0x50, 0x4B]" load files ff byCodeUnits,
      OF h1 h2 h3 h4 h5 h6]
  obtain vs where 1: "extractZipFromData load byCodeUnits ff ''UEs='' = Inr (Multi vs)"
    and 2: "map name vs = map fst (sort_cmp (\<lambda>a b. byCodeUnits (fst a) (fst b)) (video_entries files))"
    and 3: "\<forall>files'. set files' = set files \<and> distinct (map fst files) \<and> distinct (map fst files')
            \<and> (\<forall>a \<in> fst ` set (video_entries files). \<forall>b \<in> fst ` set (video_entries files).
                  byCodeUnits a b \<le> 0 \<and> byCodeUnits b a \<le> 0 \<longrightarrow> a = b)
            \<longrightarrow> extract_from_zip byCodeUnits ff files' = Inr (Multi vs)"
    by blast
  from 3[rule_format, OF r] have 4: "extract_from_zip byCodeUnits ff (rev files) = Inr (Multi vs)" .
  from 2 srt have 5: "map name vs = [''a.webm'', ''b.avi'', ''c.mp4'']" by simp
  from 1 5 4 have "extractZipFromData load byCodeUnits ff ''UEs='' = Inr (Multi vs)
      \<and> map name vs = [''a.webm'', ''b.avi'', ''c.mp4'']
      \<and> extract_from_zip byCodeUnits ff (rev files) = Inr (Multi vs)"
    by simp
  then show ?thesis unfolding load_def ff_def files_def by (rule exI)
qed

text \<open>
  C9. An out-of-range pull is destructive, not an error: for a stored result whose data
  has length \<open>L\<close>, a pull with \<open>chunkIndex * ceiling \<ge> L\<close> answers with an empty chunk
  and \<open>isLast = true\<close> and deletes the entry, so that every later pull under the same
  identifier fails with the not-found error.
\<close>

theorem C9_out_of_range_pull_destroys:
  assumes "resultStorage rid = Some st"
    and "int (length (stored_data st)) \<le> chunkIndex * int MAX_CHUNK_SIZE"
  shows "handleGetResultChunk rid chunkIndex resultStorage =
           Inr (\<lparr>chunk = [], isLast = True\<rparr>, resultStorage(rid := None))
       \<and> handleGetResultChunk rid later (resultStorage(rid := None)) = Inl (ResultNotFound rid)"
proof -
  let ?L = "int (length (stored_data st))"
  let ?start = "chunkIndex * int MAX_CHUNK_SIZE"
  have e: "min (?start + int MAX_CHUNK_SIZE) ?L = ?L"
    using assms(2) by simp
  have c: "substring (stored_data st) ?start ?L = []"
    using assms(2) by (simp add: substring_past_end)
  show ?thesis
    using assms(1) e c by (simp add: handleGetResultChunk_def Let_def)
qed

theorem C9_witness:
  "handleGetResultChunk ''r'' 2
     [''r'' \<mapsto> StoredSingle (replicate (MAX_CHUNK_SIZE + 1) CHR ''A'') ''video/mp4''] =
     Inr (\<lparr>chunk = [], isLast = True\<rparr>, Map.empty)
   \<and> handleGetResultChunk ''r'' 0 Map.empty = Inl (ResultNotFound ''r'')"
  using C9_out_of_range_pull_destroys
    [of "[''r'' \<mapsto> StoredSingle (replicate (MAX_CHUNK_SIZE + 1) CHR ''A'') ''video/mp4'']"
        "''r''" "StoredSingle (replicate (MAX_CHUNK_SIZE + 1) CHR ''A'') ''video/mp4''" 2 0]
    MAX_CHUNK_SIZE_pos
  by simp

text \<open>
  C10. A single recognized entry gives the single-video shape: a successful extraction
  returns \<open>Single\<close> only when exactly one entry is recognized and \<open>Multi\<close> only when at
  least two are, with one item per entry; with one recognized entry (readable, and
  converted if need be) the result is the \<open>base64\<close> and \<open>mimeType\<close> of the one
  processed video, without its name, which the single shape has no field for; with two
  or more it is \<open>Multi\<close>.
\<close>

theorem C10_single_entry_collapse:
  assumes "base64ToBytes zipBase64 = Inr zipData" and "loadAsync zipData = Inr files"
  shows "(extractZipFromData loadAsync localeCompare ffmpeg zipBase64 = Inr r \<longrightarrow>
           (case r of
              Single b m \<Rightarrow> length (video_entries files) = 1
            | Multi vs \<Rightarrow> 2 \<le> length (video_entries files)
                \<and> length vs = length (video_entries files)))
    \<and> (converts ffmpeg files \<and> length (video_entries files) = 1 \<longrightarrow>
         (\<exists>v. process_videos ffmpeg 0 (video_entries files) = Inr [v]
            \<and> extractZipFromData loadAsync localeCompare ffmpeg zipBase64 =
                Inr (Single (base64 v) (mimeType v))))
    \<and> (converts ffmpeg files \<and> 2 \<le> length (video_entries files) \<longrightarrow>
         (\<exists>vs. extractZipFromData loadAsync localeCompare ffmpeg zipBase64 = Inr (Multi vs)
            \<and> length vs = length (video_entries files)))"
proof -
  have e: "extractZipFromData loadAsync localeCompare ffmpeg zipBase64 =
           extract_from_zip localeCompare ffmpeg files"
    using assms by (simp add: extractZipFromData_def)
  have 1: "case r of
              Single b m \<Rightarrow> length (video_entries files) = 1
            | Multi vs \<Rightarrow> 2 \<le> length (video_entries files)
                \<and> length vs = length (video_entries files)"
    if "extract_from_zip localeCompare ffmpeg files = Inr r"
  proof (cases r)
    case (Single b m)
    then show ?thesis using extract_from_zip_shape[OF that] by simp
  next
    case (Multi vs)
    then have "2 \<le> length (video_entries files)"
      and "map name vs = map fst (sort_cmp (\<lambda>a b. localeCompare (fst a) (fst b)) (video_entries files))"
      using extract_from_zip_shape[OF that] by simp_all
    then have "2 \<le> length (video_entries files) \<and> length (map name vs) = length (video_entries files)"
      by simp
    then show ?thesis using Multi by simp
  qed
  have 2: "\<exists>v. process_videos ffmpeg 0 (video_entries files) = Inr [v]
            \<and> extract_from_zip localeCompare ffmpeg files = Inr (Single (base64 v) (mimeType v))"
    if "converts ffmpeg files \<and> length (video_entries files) = 1"
    using extract_from_zip_single[of ffmpeg files localeCompare] that by blast
  have 3: "\<exists>vs. extract_from_zip localeCompare ffmpeg files = Inr (Multi vs)
            \<and> length vs = length (video_entries files)"
    if "converts ffmpeg files \<and> 2 \<le> length (video_entries files)"
  proof -
    from extract_from_zip_multi[of ffmpeg files localeCompare] that
    obtain vs where "extract_from_zip localeCompare ffmpeg files = Inr (Multi vs)"
      and "map name vs = map fst (sort_cmp (\<lambda>a b. localeCompare (fst a) (fst b)) (video_entries files))"
      by blast
    then have "extract_from_zip localeCompare ffmpeg files = Inr (Multi vs)
        \<and> length (map name vs) = length (video_entries files)"
      by simp
    then show ?thesis by auto
  qed
  from 1 2 3 show ?thesis unfolding e by blast
qed

theorem C10_witness:
  "extractZipFromData
     (\<lambda>zipData. Inr [(''readme.txt'', \<lparr>dir = False, content = Inr [9]\<rparr>),
                     (''clip.MP4'', \<lparr>dir = False, content = Inr [1, 2, 3]\<rparr>)])
     byCodeUnits (\<lambda>i ext videoData. Inr (videoData @ [0xFF])) ''UEs=''
     = Inr (Single ''AQID'' ''video/mp4'')
   \<and> (\<exists>vs. extractZipFromData
          (\<lambda>zipData. Inr [(''c.mp4'', \<lparr>dir = False, content = Inr [3]\<rparr>),
                          (''a.webm'', \<lparr>dir = False, content = Inr [1]\<rparr>)])
          byCodeUnits (\<lambda>i ext videoData. Inr (videoData @ [0xFF])) ''UEs='' = Inr (Multi vs)
        \<and> length vs = 2)"
proof -
  define one :: zip_files where
    "one = [(''readme.txt'', \<lparr>dir = False, content = Inr [9]\<rparr>),
            (''clip.MP4'', \<lparr>dir = False, content = Inr [1, 2, 3]\<rparr>)]"
  define two :: zip_files where
    "two = [(''c.mp4'', \<lparr>dir = False, content = Inr [3]\<rparr>),
            (''a.webm'', \<lparr>dir = False, content = Inr [1]\<rparr>)]"
  define ff :: "nat \<Rightarrow> string \<Rightarrow> 8 word list \<Rightarrow> error + 8 word list" where
    "ff = (\<lambda>i ext videoData. Inr (videoData @ [0xFF]))"
  have h1: "base64ToBytes ''UEs='' = Inr [0x50, 0x4B]" by code_simp
  have ve1: "video_entries one = [(''clip.MP4'', \<lparr>dir = False, content = Inr [1, 2, 3]\<rparr>)]"
    unfolding one_def by code_simp
  have ve2: "video_entries two = two" unfolding two_def by code_simp
  have c1: "converts ff one \<and> length (video_entries one) = 1"
    unfolding converts_def ve1 ff_def by simp
  have c2: "converts ff two \<and> 2 \<le> length (video_entries two)"
    unfolding converts_def ve2 unfolding two_def ff_def by simp
  have b64: "uint8ToBase64 [1, 2, 3] = ''AQID''"
    by (simp add: uint8ToBase64_def binary_loop_eq fromCharCode_def btoa_def b64_char_def
        b64_alphabet_def)
  have ext: "toLowerCase (split_pop ''clip.MP4'') = ''mp4''" by code_simp
  have p: "process_videos (\<lambda>i ext videoData. Inr (videoData @ [0xFF])) 0
             [(''clip.MP4'', \<lparr>dir = False, content = Inr [1, 2, 3]\<rparr>)] =
      Inr [\<lparr>name = ''clip.MP4'', base64 = ''AQID'', mimeType = ''video/mp4''\<rparr>]"
    by (simp add: Let_def ext b64 NATIVE_FORMATS_def mimeTypes_def)
  note t1 = C10_single_entry_collapse[of "''UEs=''" "[0x50, 0x4B]" "\<lambda>zipData. Inr one" one
        byCodeUnits ff undefined, OF h1 refl]
  from t1[THEN conjunct2, THEN conjunct1, THEN mp, OF c1] obtain v where v: "process_videos ff 0 (video_entries one) = Inr [v]"
    and e: "extractZipFromData (\<lambda>zipData. Inr one) byCodeUnits ff ''UEs='' =
            Inr (Single (base64 v) (mimeType v))"
    by (elim exE conjE)
  from v p have "v = \<lparr>name = ''clip.MP4'', base64 = ''AQID'', mimeType = ''video/mp4''\<rparr>"
    unfolding ve1 ff_def by simp
  with e have a: "extractZipFromData (\<lambda>zipData. Inr one) byCodeUnits ff ''UEs='' =
      Inr (Single ''AQID'' ''video/mp4'')"
    by simp
  note t2 = C10_single_entry_collapse[of "''UEs=''" "[0x50, 0x4B]" "\<lambda>zipData. Inr two" two
        byCodeUnits ff undefined, OF h1 refl]
  have l2: "length (video_entries two) = 2" unfolding ve2 by (simp add: two_def)
  from t2[THEN conjunct2, THEN conjunct2, THEN mp, OF c2]
  have b: "\<exists>vs. extractZipFromData (\<lambda>zipData. Inr two) byCodeUnits ff ''UEs='' = Inr (Multi vs)
      \<and> length vs = 2"
    unfolding l2 .
  from a b show ?thesis unfolding one_def two_def ff_def by (rule conjI)
qed

end
